theory Spec2Isabelle
  imports Main "HOL-Library.Word"
begin

unbundle bit_operations_syntax

section \<open>Machine integers of the measurement sensor class\<close>

text \<open>
  The driver \<^verbatim>\<open>drivers/legoev3/msensor_class.c\<close> is built for the LEGO
  Mindstorms EV3 brick, an ARM9 running a 32-bit little-endian kernel. The C types
  \<^verbatim>\<open>uint\<close> and \<^verbatim>\<open>int\<close> have 32 bits and \<^verbatim>\<open>unsigned char\<close> has 8. The width of
  \<^verbatim>\<open>unsigned long\<close> is the kernel's \<^verbatim>\<open>BITS_PER_LONG\<close>, 32 on the EV3; it is
  the first argument \<open>w\<close> of every function that computes in \<^verbatim>\<open>unsigned long\<close>,
  so that each statement shows the width it is about.

  Unsigned values are natural numbers, and each store into a \<open>w\<close>-bit variable is
  written \<open>ulong w\<close>. The conversion of a value to the 32-bit \<^verbatim>\<open>int\<close> keeps the low 32
  bits in two's complement (\<open>to_int\<close>), which is what the kernel's compiler does; the
  kernel is built with wrapping signed arithmetic.
\<close>

definition BITS_PER_LONG :: nat where
  "BITS_PER_LONG = 32"

definition ulong :: "nat \<Rightarrow> nat \<Rightarrow> nat" where
  "ulong w x = x mod 2 ^ w"

definition to_int :: "int \<Rightarrow> int" where
  "to_int x = (x + 2 ^ 31) mod 2 ^ 32 - 2 ^ 31"

definition INT_MAX :: int where
  "INT_MAX = 2147483647"

definition INT_MIN :: int where
  "INT_MIN = - 2147483648"

section \<open>msensor_ftoi: 32-bit IEEE 754 float to fixed point integer\<close>

text \<open>
  \<^verbatim>\<open>while (dp--) i *= 10;\<close> on an \<^verbatim>\<open>unsigned long\<close>: every product is stored
  modulo \<open>2 ^ w\<close>.
\<close>

fun ftoi_scale :: "nat \<Rightarrow> nat \<Rightarrow> nat \<Rightarrow> nat" where
  "ftoi_scale w i 0 = i"
| "ftoi_scale w i (Suc dp) = ftoi_scale w (ulong w (i * 10)) dp"

text \<open>
  The part of \<^verbatim>\<open>msensor_ftoi\<close> between the special cases and the final
  \<^verbatim>\<open>return s * i\<close>: the value of \<^verbatim>\<open>i\<close> at the return statement, from the exponent
  field \<open>e\<close>, the mantissa field \<open>i\<close> and \<open>dp\<close>. A shift by the width of the type or
  more is undefined in C; the model returns \<open>None\<close> there. \<^verbatim>\<open>1L << (w - 1)\<close>
  is the sign bit of a \<^verbatim>\<open>long\<close>, converted to \<open>2 ^ (w - 1)\<close> by the unsigned
  \<^verbatim>\<open>%\<close>.
\<close>

definition ftoi_magnitude :: "nat \<Rightarrow> nat \<Rightarrow> nat \<Rightarrow> nat \<Rightarrow> nat option" where
  "ftoi_magnitude w e i dp =
    (let i = ulong w (i + 2 ^ 23);
         i = ftoi_scale w i dp
     in if e < 150 then
          (if w \<le> 150 - e then None
           else
             let m = i mod 2 ^ (150 - e);
                 i = ulong w (i + drop_bit 1 m)
             in Some (drop_bit (150 - e) i))
        else
          (if w \<le> e - 150 then None
           else Some (ulong w (push_bit (e - 150) i))))"

definition msensor_ftoi :: "nat \<Rightarrow> nat \<Rightarrow> nat \<Rightarrow> int option" where
  "msensor_ftoi w f dp =
    (let s = (if f AND 0x80000000 \<noteq> 0 then - 1 else 1 :: int);
         e = drop_bit 23 (f AND 0x7F800000) mod 256;
         i = f AND 0x007FFFFF
     in if e = 0 then Some 0
        else if e = 255 then Some (if s = 1 then INT_MAX else INT_MIN)
        else map_option (\<lambda>i. to_int (s * int i)) (ftoi_magnitude w e i dp))"

section \<open>msensor_itof: fixed point integer to 32-bit IEEE 754 float\<close>

text \<open>\<^verbatim>\<open>while (dp-- > 0) f /= 10;\<close>\<close>

fun itof_scale :: "nat \<Rightarrow> nat \<Rightarrow> nat" where
  "itof_scale f 0 = f"
| "itof_scale f (Suc dp) = itof_scale (f div 10) dp"

text \<open>
  \<^verbatim>\<open>while (f >= (1 << 24)) { f >>= 1; e++; }\<close> with \<^verbatim>\<open>e\<close> an
  \<^verbatim>\<open>unsigned char\<close>.
\<close>

function itof_shift_down :: "nat \<Rightarrow> nat \<Rightarrow> nat \<times> nat" where
  "itof_shift_down f e =
    (if 2 ^ 24 \<le> f then itof_shift_down (drop_bit 1 f) ((e + 1) mod 256) else (f, e))"
  by pat_completeness auto
termination
  by (relation "measure (\<lambda>(f, e). f)") (auto simp: drop_bit_eq_div)

text \<open>
  \<^verbatim>\<open>while (f < (1 << 23)) { f <<= 1; e--; }\<close>. Nothing in the loop bounds the
  number of rounds, so the model is a partial function: \<open>None\<close> is a loop that never
  ends.
\<close>

partial_function (option) itof_shift_up :: "nat \<Rightarrow> nat \<Rightarrow> nat \<Rightarrow> (nat \<times> nat) option" where
  "itof_shift_up w f e =
    (if f < 2 ^ 23 then itof_shift_up w (ulong w (push_bit 1 f)) ((e + 255) mod 256)
     else Some (f, e))"

definition msensor_itof :: "nat \<Rightarrow> int \<Rightarrow> nat \<Rightarrow> nat option" where
  "msensor_itof w i dp =
    (let s = (if i < 0 then - 1 else 1 :: int);
         f = nat (to_int (i * s) mod 2 ^ w)
     in if i = 0 then Some 0
        else
          let f = ulong w (push_bit 23 f);
              f = itof_scale f dp;
              (f, e) = itof_shift_down f 127
          in case itof_shift_up w f e of
               None \<Rightarrow> None
             | Some (f, e) \<Rightarrow>
                 let f = ulong w (f + 2 ^ w - 2 ^ 23);
                     f = (if s = - 1 then f OR 0x80000000 else f)
                 in Some ((f OR push_bit 23 e) mod 2 ^ 32))"

section \<open>The measurement sensor device\<close>

text \<open>
  Modelled from the spec: the declarations of \<^verbatim>\<open>linux/legoev3/msensor_class.h\<close>
  (\<^verbatim>\<open>struct msensor_mode_info\<close>, \<^verbatim>\<open>struct msensor_device\<close>,
  \<^verbatim>\<open>enum msensor_data_type\<close>, \<^verbatim>\<open>MSENSOR_RAW_DATA_SIZE\<close>) are not part of the
  source file. The mode descriptor has a name, a raw data buffer, the number of data
  sets, the format, the decimals, six bounds stored as float bit patterns and the
  units. The device has a type id, the mode table (\<^verbatim>\<open>mode_info\<close> with
  \<^verbatim>\<open>num_modes\<close> entries, here a list and its length), the three driver callbacks
  and the driver's context. The callbacks that change the driver's state return the
  new context next to their C result. The format is a C \<^verbatim>\<open>enum\<close> that the driver
  fills in: besides the four names the source uses, \<open>MSENSOR_DATA_OTHER\<close> stands for
  any other value of the field, which no \<^verbatim>\<open>case\<close> of the switches matches.
\<close>

datatype msensor_data_type =
  MSENSOR_DATA_8 | MSENSOR_DATA_16 | MSENSOR_DATA_32 | MSENSOR_DATA_FLOAT
  | MSENSOR_DATA_OTHER

record msensor_mode_info =
  name :: string
  raw_data :: "8 word list"
  data_sets :: nat
  format :: msensor_data_type
  decimals :: nat
  raw_min :: nat
  raw_max :: nat
  pct_min :: nat
  pct_max :: nat
  si_min :: nat
  si_max :: nat
  units :: string

record 'c msensor_device =
  type_id :: int
  mode_info :: "msensor_mode_info list"
  get_mode :: "'c \<Rightarrow> nat"
  set_mode :: "'c \<Rightarrow> nat \<Rightarrow> int \<times> 'c"
  write_data :: "'c \<Rightarrow> 8 word list \<Rightarrow> nat \<Rightarrow> nat \<Rightarrow> int \<times> 'c"
  drv_context :: 'c

definition num_modes :: "'c msensor_device \<Rightarrow> nat" where
  "num_modes ms = length (mode_info ms)"

definition MSENSOR_RAW_DATA_SIZE :: nat where
  "MSENSOR_RAW_DATA_SIZE = 32"

definition ENXIO :: int where
  "ENXIO = 6"

definition EINVAL :: int where
  "EINVAL = 22"

text \<open>
  What a function of the class hands back: \<open>Ok\<close> with its payload (for the
  \<^verbatim>\<open>show\<close> functions the text written to \<^verbatim>\<open>buf\<close>, whose length is the count
  returned), \<open>Error\<close> with the negative value returned, or \<open>Undefined\<close> where the C
  code reads or writes outside an array or shifts by the width of the type.
\<close>

datatype 'a result = Ok 'a | Error int | Undefined

text \<open>\<^verbatim>\<open>ms->mode_info[ms->get_mode(ms->context)]\<close>\<close>

definition mode_entry :: "'c msensor_device \<Rightarrow> msensor_mode_info option" where
  "mode_entry ms =
    (let mode = get_mode ms (drv_context ms)
     in if mode < num_modes ms then Some (mode_info ms ! mode) else None)"

text \<open>The current mode is what the driver's \<^verbatim>\<open>get_mode\<close> callback reports.\<close>

definition current_mode :: "'c msensor_device \<Rightarrow> nat" where
  "current_mode ms = get_mode ms (drv_context ms)"

subsection \<open>Text conversions of the C library\<close>

text \<open>
  Modelled from the spec: \<^verbatim>\<open>sprintf\<close> and \<^verbatim>\<open>sscanf\<close> are defined elsewhere in
  the kernel. The attributes are read as decimal integers, which is the \<^verbatim>\<open>%d\<close>
  conversion of \<^verbatim>\<open>sprintf\<close>: the digits of the value, after a minus sign when it
  is negative.
\<close>

function dec_digits :: "nat \<Rightarrow> string" where
  "dec_digits n =
    (if n < 10 then [''0123456789'' ! n]
     else dec_digits (n div 10) @ [''0123456789'' ! (n mod 10)])"
  by pat_completeness auto
termination
  by (relation "measure id") auto

definition sprintf_d :: "int \<Rightarrow> string" where
  "sprintf_d v = (if v < 0 then ''-'' @ dec_digits (nat (- v)) else dec_digits (nat v))"

text \<open>
  Modelled from the spec: the value attributes are named \<open>value0\<close> to \<open>value7\<close> and
  the index is read from the name after its first five characters. That is the
  \<^verbatim>\<open>%d\<close> conversion of \<^verbatim>\<open>sscanf\<close>: an optional minus sign and the longest run
  of decimal digits, at least one.
\<close>

definition is_digit :: "char \<Rightarrow> bool" where
  "is_digit c = (c \<in> set ''0123456789'')"

definition digit_value :: "char \<Rightarrow> nat" where
  "digit_value c = of_char c - 48"

definition sscanf_d :: "string \<Rightarrow> int option" where
  "sscanf_d str =
    (let neg = (str \<noteq> [] \<and> hd str = CHR ''-'');
         ds = takeWhile is_digit (if neg then tl str else str);
         v = foldl (\<lambda>a c. a * 10 + digit_value c) 0 ds
     in if ds = [] then None else Some (if neg then - int v else int v))"

text \<open>
  Modelled from the spec: \<^verbatim>\<open>sysfs_streq\<close> is defined elsewhere in the kernel; the
  spec says that the mode is found by an exact string match.
\<close>

definition sysfs_streq :: "string \<Rightarrow> string \<Rightarrow> bool" where
  "sysfs_streq s1 s2 = (s1 = s2)"

subsection \<open>The mode attribute\<close>

text \<open>
  The loop of \<^verbatim>\<open>msensor_show_mode\<close>, at index \<open>i\<close> with the entries from \<open>i\<close> on
  and the text written so far.
\<close>

fun show_mode_loop :: "nat \<Rightarrow> nat \<Rightarrow> msensor_mode_info list \<Rightarrow> string \<Rightarrow> string" where
  "show_mode_loop mode i [] buf = buf"
| "show_mode_loop mode i (m # rest) buf =
    show_mode_loop mode (Suc i) rest
      (buf @ (if i = mode then ''['' else [])
           @ name m
           @ (if i = mode then '']'' else [])
           @ '' '')"

definition msensor_show_mode :: "'c msensor_device \<Rightarrow> string result" where
  "msensor_show_mode ms =
    (let mode = get_mode ms (drv_context ms);
         buf = show_mode_loop mode 0 (mode_info ms) [];
         count = length buf
     in if count = 0 then Error (- ENXIO)
        else Ok (buf[count - 1 := CHR 0x0A]))"

text \<open>
  The loop of \<^verbatim>\<open>msensor_store_mode\<close>. The result is the C return value together
  with the device after the call: only the \<^verbatim>\<open>set_mode\<close> callback changes the
  driver's context.
\<close>

fun store_mode_loop ::
  "'c msensor_device \<Rightarrow> string \<Rightarrow> nat \<Rightarrow> nat \<Rightarrow> msensor_mode_info list
    \<Rightarrow> nat result \<times> 'c msensor_device" where
  "store_mode_loop ms buf count i [] = (Error (- EINVAL), ms)"
| "store_mode_loop ms buf count i (m # rest) =
    (if sysfs_streq buf (name m) then
       (let (err, c) = set_mode ms (drv_context ms) i
        in if err \<noteq> 0 then (Error err, ms\<lparr>drv_context := c\<rparr>)
           else (Ok count, ms\<lparr>drv_context := c\<rparr>))
     else store_mode_loop ms buf count (Suc i) rest)"

definition msensor_store_mode ::
  "'c msensor_device \<Rightarrow> string \<Rightarrow> nat \<Rightarrow> nat result \<times> 'c msensor_device" where
  "msensor_store_mode ms buf count = store_mode_loop ms buf count 0 (mode_info ms)"

subsection \<open>Raw values\<close>

text \<open>
  A little-endian read of \<open>n\<close> bytes at byte offset \<open>off\<close> of the raw data buffer,
  \<open>None\<close> outside the buffer.
\<close>

definition load_le :: "8 word list \<Rightarrow> int \<Rightarrow> nat \<Rightarrow> nat option" where
  "load_le raw off n =
    (if 0 \<le> off \<and> nat off + n \<le> length raw
     then Some (foldr (\<lambda>b a. unat b + 256 * a) (take n (drop (nat off) raw)) 0)
     else None)"

definition msensor_raw_s8_value :: "'c msensor_device \<Rightarrow> int \<Rightarrow> int result" where
  "msensor_raw_s8_value ms index =
    (case mode_entry ms of
       None \<Rightarrow> Undefined
     | Some mi \<Rightarrow>
        (case load_le (raw_data mi) index 1 of
           None \<Rightarrow> Undefined
         | Some u \<Rightarrow> Ok (sint (word_of_nat u :: 8 word))))"

definition msensor_raw_s16_value :: "'c msensor_device \<Rightarrow> int \<Rightarrow> int result" where
  "msensor_raw_s16_value ms index =
    (case mode_entry ms of
       None \<Rightarrow> Undefined
     | Some mi \<Rightarrow>
        (case load_le (raw_data mi) (index * 2) 2 of
           None \<Rightarrow> Undefined
         | Some u \<Rightarrow> Ok (sint (word_of_nat u :: 16 word))))"

definition msensor_raw_s32_value :: "'c msensor_device \<Rightarrow> int \<Rightarrow> int result" where
  "msensor_raw_s32_value ms index =
    (case mode_entry ms of
       None \<Rightarrow> Undefined
     | Some mi \<Rightarrow>
        (case load_le (raw_data mi) (index * 4) 4 of
           None \<Rightarrow> Undefined
         | Some u \<Rightarrow> Ok (sint (word_of_nat u :: 32 word))))"

definition msensor_raw_float_value :: "nat \<Rightarrow> 'c msensor_device \<Rightarrow> int \<Rightarrow> int result" where
  "msensor_raw_float_value w ms index =
    (case mode_entry ms of
       None \<Rightarrow> Undefined
     | Some mi \<Rightarrow>
        (case load_le (raw_data mi) (index * 4) 4 of
           None \<Rightarrow> Undefined
         | Some u \<Rightarrow>
            (case msensor_ftoi w u (decimals mi) of
               None \<Rightarrow> Undefined
             | Some v \<Rightarrow> Ok v)))"

text \<open>
  \<^verbatim>\<open>count = sprintf(buf, "%d\n", value)\<close>. In \<^verbatim>\<open>msensor_show_value\<close> the
  variable \<^verbatim>\<open>count\<close> starts as \<^verbatim>\<open>-ENXIO\<close> and the switch over the format has no
  default: a format outside the four cases returns \<^verbatim>\<open>-ENXIO\<close>, like an index out
  of range. \<^verbatim>\<open>msensor_show_bin_data_format\<close> does the same.
\<close>

definition sprintf_value :: "int result \<Rightarrow> string result" where
  "sprintf_value r =
    (case r of Ok v \<Rightarrow> Ok (sprintf_d v @ [CHR 0x0A]) | Error e \<Rightarrow> Error e | Undefined \<Rightarrow> Undefined)"

definition msensor_show_value :: "nat \<Rightarrow> 'c msensor_device \<Rightarrow> string \<Rightarrow> string result" where
  "msensor_show_value w ms attr_name =
    (if length attr_name < 6 then Error (- ENXIO)
     else
       (case sscanf_d (drop 5 attr_name) of
          None \<Rightarrow> Error (- ENXIO)
        | Some index \<Rightarrow>
           (case mode_entry ms of
              None \<Rightarrow> Undefined
            | Some mi \<Rightarrow>
               if index < 0 \<or> int (data_sets mi) \<le> index then Error (- ENXIO)
               else
                 (case format mi of
                    MSENSOR_DATA_8 \<Rightarrow> sprintf_value (msensor_raw_s8_value ms index)
                  | MSENSOR_DATA_16 \<Rightarrow> sprintf_value (msensor_raw_s16_value ms index)
                  | MSENSOR_DATA_32 \<Rightarrow> sprintf_value (msensor_raw_s32_value ms index)
                  | MSENSOR_DATA_FLOAT \<Rightarrow> sprintf_value (msensor_raw_float_value w ms index)
                  | MSENSOR_DATA_OTHER \<Rightarrow> Error (- ENXIO)))))"

definition msensor_show_bin_data_format :: "'c msensor_device \<Rightarrow> string result" where
  "msensor_show_bin_data_format ms =
    (case mode_entry ms of
       None \<Rightarrow> Undefined
     | Some mi \<Rightarrow>
        (case format mi of
           MSENSOR_DATA_8 \<Rightarrow> Ok (''s8'' @ [CHR 0x0A])
         | MSENSOR_DATA_16 \<Rightarrow> Ok (''s16'' @ [CHR 0x0A])
         | MSENSOR_DATA_32 \<Rightarrow> Ok (''s32'' @ [CHR 0x0A])
         | MSENSOR_DATA_FLOAT \<Rightarrow> Ok (''float'' @ [CHR 0x0A])
         | MSENSOR_DATA_OTHER \<Rightarrow> Error (- ENXIO)))"

subsection \<open>The binary attribute\<close>

text \<open>
  \<^verbatim>\<open>memcpy(dst + doff, src, n)\<close> on byte arrays: \<open>n\<close> bytes from the start of \<open>src\<close>
  replace the bytes of \<open>dst\<close> from \<open>doff\<close> on.
\<close>

definition memcpy :: "8 word list \<Rightarrow> nat \<Rightarrow> 8 word list \<Rightarrow> nat \<Rightarrow> 8 word list option" where
  "memcpy dst doff src n =
    (if doff + n \<le> length dst \<and> n \<le> length src
     then Some (take doff dst @ take n src @ drop (doff + n) dst)
     else None)"

text \<open>
  \<^verbatim>\<open>msensor_read_bin_data\<close> with \<^verbatim>\<open>attr->size\<close>, the caller's buffer, the offset
  and the count. The result is the number of bytes returned and the buffer after the
  call; the caller takes that many bytes from the start of the buffer as the data read
  at \<open>off\<close>.
\<close>

definition msensor_read_bin_data ::
  "'c msensor_device \<Rightarrow> nat \<Rightarrow> 8 word list \<Rightarrow> nat \<Rightarrow> nat \<Rightarrow> (nat \<times> 8 word list) result" where
  "msensor_read_bin_data ms attr_size buf off count =
    (let size = attr_size
     in if size \<le> off \<or> count = 0 then Ok (0, buf)
        else
          let size = size - off;
              size = (if count < size then count else size)
          in case mode_entry ms of
               None \<Rightarrow> Undefined
             | Some mi \<Rightarrow>
                (case memcpy buf off (raw_data mi) size of
                   None \<Rightarrow> Undefined
                 | Some buf' \<Rightarrow> Ok (size, buf')))"

text \<open>
  The spec's \<open>read_raw_window\<close>, in its own words: up to \<open>max_len\<close> bytes of the raw
  buffer starting at \<open>offset\<close>, clipped to the buffer's declared size.
\<close>

definition read_raw_window :: "8 word list \<Rightarrow> nat \<Rightarrow> nat \<Rightarrow> nat \<Rightarrow> 8 word list" where
  "read_raw_window raw declared offset max_len = take max_len (drop offset (take declared raw))"

text \<open>
  The spec's mode list, in its own words: the names separated by single spaces, the
  active one in square brackets.
\<close>

fun join_space :: "string list \<Rightarrow> string" where
  "join_space [] = []"
| "join_space [x] = x"
| "join_space (x # y # zs) = x @ '' '' @ join_space (y # zs)"

fun bracket :: "nat \<Rightarrow> nat \<times> string \<Rightarrow> string" where
  "bracket mode (i, n) = (if i = mode then ''['' @ n @ '']'' else n)"

definition mode_list_display :: "nat \<Rightarrow> string list \<Rightarrow> string" where
  "mode_list_display mode names = join_space (map (bracket mode) (enumerate 0 names))"

text \<open>
  The spec's signed 16-bit value of two bytes, low byte first: the two's complement
  reading of \<open>lo + 256 * hi\<close>.
\<close>

definition s16_of_bytes :: "8 word \<Rightarrow> 8 word \<Rightarrow> int" where
  "s16_of_bytes lo hi =
    (let u = int (unat lo) + 256 * int (unat hi) in if u < 32768 then u else u - 65536)"

subsection \<open>A driver for the examples\<close>

text \<open>
  A mode descriptor with a name, a format, a number of data sets and raw data, and a
  device over a mode table whose driver keeps the index of the current mode as its
  context. Its \<^verbatim>\<open>set_mode\<close> refuses mode 2 with \<open>-5\<close> (\<^verbatim>\<open>-EIO\<close>) and leaves the
  mode as it was; it switches to any other mode and returns 0.
\<close>

definition example_mode ::
  "string \<Rightarrow> msensor_data_type \<Rightarrow> nat \<Rightarrow> 8 word list \<Rightarrow> msensor_mode_info" where
  "example_mode n fmt sets raw =
    \<lparr>name = n, raw_data = raw, data_sets = sets, format = fmt, decimals = 0,
     raw_min = 0, raw_max = 0, pct_min = 0, pct_max = 0, si_min = 0, si_max = 0,
     units = []\<rparr>"

definition example_device :: "msensor_mode_info list \<Rightarrow> nat \<Rightarrow> nat msensor_device" where
  "example_device table mode =
    \<lparr>type_id = 0, mode_info = table, get_mode = (\<lambda>c. c),
     set_mode = (\<lambda>c i. if i = 2 then (- 5, c) else (0, i)),
     write_data = (\<lambda>c d off n. (int n, c)), drv_context = mode\<rparr>"

definition abc_device :: "nat msensor_device" where
  "abc_device =
    example_device
      [example_mode ''A'' MSENSOR_DATA_8 1 [], example_mode ''B'' MSENSOR_DATA_8 1 [],
       example_mode ''C'' MSENSOR_DATA_8 1 []] 1"

definition s16_mode :: msensor_mode_info where
  "s16_mode = example_mode ''RAW'' MSENSOR_DATA_16 2 [0x01, 0x00, 0xFF, 0xFF]"

definition s16_device :: "nat msensor_device" where
  "s16_device = example_device [s16_mode] 0"

text \<open>
  A driver that switches the mode and then reports \<open>-5\<close>, and a device whose only
  mode has a format outside the four cases.
\<close>

definition switching_device :: "nat msensor_device" where
  "switching_device = abc_device\<lparr>set_mode := (\<lambda>c i. (- 5, i))\<rparr>"

definition other_mode :: msensor_mode_info where
  "other_mode = example_mode ''RAW'' MSENSOR_DATA_OTHER 2 [0x01, 0x00, 0xFF, 0xFF]"

definition other_device :: "nat msensor_device" where
  "other_device = example_device [other_mode] 0"

definition count_bytes :: "8 word list" where
  "count_bytes =
    [1, 2, 3, 4, 5, 6, 7, 8, 9, 10, 11, 12, 13, 14, 15, 16,
     17, 18, 19, 20, 21, 22, 23, 24, 25, 26, 27, 28, 29, 30, 31, 32]"

definition bin_device :: "nat msensor_device" where
  "bin_device = example_device [example_mode ''RAW'' MSENSOR_DATA_8 8 count_bytes] 0"

text \<open>
  The spec's rounding rule, in its own words: the value \<open>x / 2 ^ k\<close> rounded to the
  nearest integer, ties rounded up, which is \<open>\<lfloor>x / 2 ^ k + 1 / 2\<rfloor>\<close>.
\<close>

definition round_half_up :: "nat \<Rightarrow> nat \<Rightarrow> nat" where
  "round_half_up x k = (2 * x + 2 ^ k) div 2 ^ (k + 1)"

section \<open>Facts about the codec\<close>

lemma ftoi_scale_eq: "ftoi_scale w (ulong w i) dp = (i * 10 ^ dp) mod 2 ^ w"
proof (induction dp arbitrary: i)
  case 0
  then show ?case by (simp add: ulong_def)
next
  case (Suc dp)
  have "ftoi_scale w (ulong w i) (Suc dp) = ftoi_scale w (ulong w (i * 10)) dp"
    by (simp add: ulong_def mod_mult_left_eq)
  also have "\<dots> = (i * 10 * 10 ^ dp) mod 2 ^ w"
    by (rule Suc)
  finally show ?case by (simp add: mult.assoc)
qed

lemma ftoi_scale_less: "i < 2 ^ w \<Longrightarrow> ftoi_scale w i dp = (i * 10 ^ dp) mod 2 ^ w"
  using ftoi_scale_eq [of w i dp] by (simp add: ulong_def)

lemma itof_scale_eq: "itof_scale f dp = f div 10 ^ dp"
  by (induction dp arbitrary: f) (simp_all add: div_mult2_eq)

lemma to_int_id: "- (2 ^ 31) \<le> x \<Longrightarrow> x < 2 ^ 31 \<Longrightarrow> to_int x = x"
  by (simp add: to_int_def)

lemma round_half_up_nearest:
  "2 ^ (k + 1) * round_half_up x k \<le> 2 * x + 2 ^ k \<and>
   2 * x + 2 ^ k < 2 ^ (k + 1) * (round_half_up x k + 1)"
proof -
  define y where "y = 2 * x + 2 ^ k"
  define d :: nat where "d = 2 ^ (k + 1)"
  have "0 < d" by (simp add: d_def)
  then have "d * (y div d) \<le> y" and "y < d * (y div d + 1)"
    by (simp_all add: dividend_less_times_div)
  then show ?thesis by (simp add: round_half_up_def y_def d_def)
qed

text \<open>
  What \<^verbatim>\<open>i += m >> 1; i >>= k\<close> computes when nothing wraps: the quotient, plus
  one exactly when the remainder and its half together reach the divisor, that is
  from a remainder of two thirds of the divisor. Rounding to nearest adds one from
  half of the divisor.
\<close>

lemma half_remainder_rounding:
  assumes "0 < (K::nat)"
  shows "(I + (I mod K) div 2) div K
    = I div K + (if K \<le> I mod K + (I mod K) div 2 then 1 else 0)"
proof -
  define q where "q = I div K"
  define r where "r = I mod K"
  define h where "h = r div 2"
  have I: "I = K * q + r" by (simp add: q_def r_def)
  have r: "r < K" using assms by (simp add: r_def)
  have h: "2 * h \<le> r" by (simp add: h_def)
  show ?thesis
  proof (cases "K \<le> r + h")
    case True
    have "K * Suc q \<le> I + h" using True by (simp add: I)
    moreover have "I + h < K * Suc (Suc q)" using r h by (simp add: I)
    ultimately have "(I + h) div K = Suc q" by (rule div_nat_eqI)
    with True show ?thesis by (simp add: q_def r_def h_def)
  next
    case False
    have "K * q \<le> I + h" by (simp add: I)
    moreover have "I + h < K * Suc q" using False by (simp add: I)
    ultimately have "(I + h) div K = q" by (rule div_nat_eqI)
    with False show ?thesis by (simp add: q_def r_def h_def)
  qed
qed

lemma round_half_up_div:
  assumes "0 < k"
  shows "round_half_up x k = x div 2 ^ k + (if 2 ^ (k - 1) \<le> x mod 2 ^ k then 1 else 0)"
proof -
  define K :: nat where "K = 2 ^ (k - 1)"
  have K2: "(2::nat) ^ k = 2 * K" using assms by (simp add: K_def flip: power_Suc)
  define q where "q = x div (2 * K)"
  define r where "r = x mod (2 * K)"
  have x: "x = 2 * K * q + r" by (simp add: q_def r_def)
  have r: "r < 2 * K" by (simp add: r_def K_def)
  have e: "round_half_up x k = (x + K) div (2 * K)"
  proof -
    have "round_half_up x k = (2 * (x + K)) div (2 * (2 * K))"
      by (simp add: round_half_up_def K2)
    then show ?thesis by (simp only: div_mult_mult1_if) simp
  qed
  have main: "(x + K) div (2 * K) = x div (2 * K) + (if K \<le> x mod (2 * K) then 1 else 0)"
  proof (cases "K \<le> r")
    case True
    have "2 * K * Suc q \<le> x + K" using True by (simp add: x)
    moreover have "x + K < 2 * K * Suc (Suc q)" using r by (simp add: x)
    ultimately have "(x + K) div (2 * K) = Suc q" by (rule div_nat_eqI)
    with True show ?thesis by (simp add: q_def r_def)
  next
    case False
    have "2 * K * q \<le> x + K" by (simp add: x)
    moreover have "x + K < 2 * K * Suc q" using False by (simp add: x)
    ultimately have "(x + K) div (2 * K) = q" by (rule div_nat_eqI)
    with False show ?thesis by (simp add: q_def r_def)
  qed
  have "round_half_up x k = x div (2 * K) + (if K \<le> x mod (2 * K) then 1 else 0)"
    by (simp only: e main)
  moreover have "2 * K = 2 ^ k" by (simp only: K2)
  ultimately have "round_half_up x k = x div 2 ^ k + (if K \<le> x mod 2 ^ k then 1 else 0)"
    by simp
  then show ?thesis by (simp only: K_def)
qed

text \<open>
  The second normalisation loop of \<^verbatim>\<open>msensor_itof\<close> returns only from a non-zero
  mantissa: zero shifted left stays zero and the loop condition stays true.
\<close>

lemma itof_shift_up_nonzero:
  assumes "itof_shift_up w f e = Some r"
  shows "f \<noteq> 0"
proof (rule itof_shift_up.raw_induct [where P = "\<lambda>w f e r. f \<noteq> 0", OF _ assms])
  fix loop :: "nat \<Rightarrow> nat \<Rightarrow> nat \<Rightarrow> (nat \<times> nat) option" and w f e r
  assume IH: "\<And>w f e r. loop w f e = Some r \<Longrightarrow> f \<noteq> 0"
    and step: "(if f < 2 ^ 23 then loop w (ulong w (push_bit 1 f)) ((e + 255) mod 256)
                else Some (f, e)) = Some r"
  show "f \<noteq> 0"
  proof
    assume "f = 0"
    with step have "loop w (ulong w (push_bit 1 0)) ((e + 255) mod 256) = Some r"
      by simp
    from IH [OF this] show False by (simp add: ulong_def)
  qed
qed

lemma itof_shift_up_zero: "itof_shift_up w 0 e = None"
  using itof_shift_up_nonzero [of w 0 e] by (cases "itof_shift_up w 0 e") auto

lemma ftoi_normal_value:
  assumes "e = drop_bit 23 (f AND 0x7F800000) mod 256" and "e \<noteq> 0" and "e \<noteq> 255"
    and "ftoi_magnitude w e (f AND 0x007FFFFF) dp = Some m" and "m < 2 ^ 31"
  shows "msensor_ftoi w f dp = Some (if f AND 0x80000000 \<noteq> 0 then - int m else int m)"
proof -
  have m: "int m < 2 ^ 31" using assms(5) by (simp flip: of_nat_less_iff)
  have pos: "to_int (int m) = int m"
    using m by (intro to_int_id) simp_all
  have neg: "to_int (- int m) = - int m"
    using m by (intro to_int_id) simp_all
  show ?thesis
    using assms(1-4) by (simp add: msensor_ftoi_def Let_def pos neg)
qed

text \<open>
  A right shift leaves fewer than \<open>w\<close> bits: on the EV3 (\<open>w = 32\<close>) every defined
  right shift gives a magnitude below \<open>2 ^ 31\<close>, whatever \<open>dp\<close> is.
\<close>

lemma ftoi_magnitude_right_shift:
  assumes "e < 150" and "150 - e < w"
  shows "\<exists>m. ftoi_magnitude w e i dp = Some m \<and> m < 2 ^ (w - (150 - e))"
proof -
  define k where "k = 150 - e"
  have k: "k < w" using assms by (simp add: k_def)
  have "x mod 2 ^ w div 2 ^ k < 2 ^ (w - k)" for x :: nat
  proof -
    have "x mod 2 ^ w < 2 ^ k * 2 ^ (w - k)"
      using k by (simp flip: power_add)
    then show ?thesis by (simp add: less_mult_imp_div_less mult.commute)
  qed
  then show ?thesis
    using assms by (simp add: ftoi_magnitude_def Let_def ulong_def drop_bit_eq_div k_def)
qed

lemma ftoi_sign_right_shift:
  assumes "e = drop_bit 23 (f AND 0x7F800000) mod 256" and "118 < e" and "e < 150"
  shows "\<exists>r. msensor_ftoi BITS_PER_LONG f dp = Some r
    \<and> (if f AND 0x80000000 \<noteq> 0 then r \<le> 0 else 0 \<le> r)"
proof -
  have k: "150 - e < BITS_PER_LONG"
    using assms(2) by (simp add: BITS_PER_LONG_def)
  from ftoi_magnitude_right_shift [OF assms(3) k, of "f AND 0x007FFFFF" dp]
  obtain m where m: "ftoi_magnitude BITS_PER_LONG e (f AND 0x007FFFFF) dp = Some m"
    and b: "m < 2 ^ (BITS_PER_LONG - (150 - e))"
    by blast
  have "(2::nat) ^ (BITS_PER_LONG - (150 - e)) \<le> 2 ^ 31"
    using assms(3) by (intro power_increasing) (simp_all add: BITS_PER_LONG_def)
  with b have "m < 2 ^ 31" by simp
  from ftoi_normal_value [OF assms(1) _ _ m this] assms(2,3) show ?thesis by simp
qed

text \<open>
  The second normalisation loop of \<^verbatim>\<open>msensor_itof\<close> ends from every non-zero
  mantissa (an \<^verbatim>\<open>unsigned long\<close> has at least 24 bits), and the first loop keeps a
  non-zero mantissa non-zero. So \<^verbatim>\<open>msensor_itof\<close> fails to return exactly when
  \<open>i\<close> is not 0 and the mantissa is 0 after the divisions by ten.
\<close>

lemma itof_shift_up_terminates:
  assumes "0 < f" and "24 \<le> w"
  shows "\<exists>r. itof_shift_up w f e = Some r"
  using assms(1)
proof (induction "2 ^ 23 - f" arbitrary: f e rule: less_induct)
  case less
  show ?case
  proof (cases "f < 2 ^ 23")
    case True
    have "(2::nat) ^ 24 \<le> 2 ^ w"
      using assms(2) by (intro power_increasing) simp_all
    with True have "2 * f < 2 ^ w" by simp
    then have u: "ulong w (push_bit 1 f) = 2 * f"
      by (simp add: ulong_def push_bit_eq_mult)
    have "\<exists>r. itof_shift_up w (2 * f) ((e + 255) mod 256) = Some r"
      using True less.prems by (intro less.hyps) simp_all
    then show ?thesis
      using True u by (subst itof_shift_up.simps) simp
  next
    case False
    then show ?thesis by (subst itof_shift_up.simps) simp
  qed
qed

lemma itof_shift_down_zero: "fst (itof_shift_down f e) = 0 \<longleftrightarrow> f = 0"
proof (induction f e rule: itof_shift_down.induct)
  case (1 f e)
  show ?case
  proof (cases "2 ^ 24 \<le> f")
    case True
    then have "drop_bit 1 f \<noteq> 0" by (simp add: drop_bit_eq_div)
    with 1 True show ?thesis by (subst itof_shift_down.simps) auto
  next
    case False
    then show ?thesis by (subst itof_shift_down.simps) simp
  qed
qed

lemma msensor_itof_diverges_iff:
  assumes "24 \<le> w"
  shows "msensor_itof w i dp = None \<longleftrightarrow>
    i \<noteq> 0 \<and>
    ulong w (push_bit 23 (nat (to_int (i * (if i < 0 then - 1 else 1)) mod 2 ^ w))) div 10 ^ dp = 0"
proof (cases "i = 0")
  case True
  then show ?thesis by (simp add: msensor_itof_def)
next
  case False
  define f0 where "f0 = itof_scale
    (ulong w (push_bit 23 (nat (to_int (i * (if i < 0 then - 1 else 1)) mod 2 ^ w)))) dp"
  obtain f e where fe: "itof_shift_down f0 127 = (f, e)"
    by (cases "itof_shift_down f0 127")
  have z: "f = 0 \<longleftrightarrow> f0 = 0"
    using itof_shift_down_zero [of f0 127] fe by simp
  have "msensor_itof w i dp = None \<longleftrightarrow> itof_shift_up w f e = None"
    using False fe
    by (simp add: msensor_itof_def Let_def f0_def split: option.splits prod.splits)
  also have "\<dots> \<longleftrightarrow> f = 0"
  proof
    assume "itof_shift_up w f e = None"
    with itof_shift_up_terminates [OF _ assms, of f e] show "f = 0"
      by (cases "f = 0") auto
  next
    assume "f = 0"
    then show "itof_shift_up w f e = None" by (simp add: itof_shift_up_zero)
  qed
  finally show ?thesis using False z by (simp add: f0_def itof_scale_eq)
qed

subsection \<open>The round trip where nothing overflows\<close>

text \<open>
  The fields of a bit pattern, by division: the masks of \<^verbatim>\<open>msensor_ftoi\<close> cut the
  mantissa, the exponent and the sign out of \<open>f\<close>, and the disjunctions of
  \<^verbatim>\<open>msensor_itof\<close> put them side by side.
\<close>

lemma and_mantissa: "(f::nat) AND 0x007FFFFF = f mod 2 ^ 23"
  using take_bit_eq_mask [of 23 f] by (simp add: mask_eq_exp_minus_1 take_bit_eq_mod)

lemma and_exponent: "drop_bit 23 ((f::nat) AND 0x7F800000) mod 256 = f div 2 ^ 23 mod 256"
proof -
  have "(255::nat) = mask 8" by (simp add: mask_eq_exp_minus_1)
  then have "drop_bit 23 (f AND 0x7F800000) = take_bit 8 (drop_bit 23 f)"
    by (simp add: take_bit_eq_mask)
  then show ?thesis
    by (simp add: drop_bit_eq_div take_bit_eq_mod)
qed

lemma and_sign: "(f::nat) AND 0x80000000 \<noteq> 0 \<longleftrightarrow> odd (f div 2 ^ 31)"
proof -
  have "(0x80000000::nat) = 2 ^ 31" by simp
  then show ?thesis
    by (simp only: and_exp_eq_0_iff_not_bit bit_iff_odd) simp
qed

lemma not_bit_above:
  assumes "(a::nat) < 2 ^ n" and "n \<le> k"
  shows "\<not> bit a k"
proof -
  have "(2::nat) ^ n \<le> 2 ^ k"
    using assms(2) by (intro power_increasing) simp_all
  with assms(1) have "a < 2 ^ k" by (rule less_le_trans)
  then show ?thesis by (simp add: bit_iff_odd)
qed

lemma or_push_bit_add:
  assumes "(a::nat) < 2 ^ n"
  shows "a OR push_bit n b = a + 2 ^ n * b"
proof -
  have "a AND push_bit n b = 0"
    by (rule bit_eqI) (auto simp: bit_and_iff bit_push_bit_iff not_bit_above [OF assms])
  then have "a + push_bit n b = a OR push_bit n b"
    by (rule disjunctive_add_eq_or)
  then show ?thesis by (simp add: push_bit_eq_mult mult.commute)
qed

lemma pack_fields:
  assumes "m < 2 ^ 23" and "e < 256"
  shows "((if neg then (m::nat) OR 0x80000000 else m) OR push_bit 23 e) mod 2 ^ 32
    = m + 2 ^ 23 * (e + (if neg then 256 else 0))"
proof -
  have e: "e < 2 ^ 8" using assms(2) by simp
  have s: "(0x80000000::nat) = push_bit 23 (push_bit 8 1)"
    by (simp add: push_bit_eq_mult)
  have "(m OR 0x80000000) OR push_bit 23 e = m OR push_bit 23 (e OR push_bit 8 1)"
    by (simp only: s push_bit_or ac_simps)
  also have "\<dots> = m OR push_bit 23 (e + 256)"
    using or_push_bit_add [OF e, of 1] by simp
  also have "\<dots> = m + 2 ^ 23 * (e + 256)"
    by (rule or_push_bit_add [OF assms(1)])
  finally have neg: "(m OR 0x80000000) OR push_bit 23 e = m + 2 ^ 23 * (e + 256)" .
  have pos: "m OR push_bit 23 e = m + 2 ^ 23 * e"
    by (rule or_push_bit_add [OF assms(1)])
  have "m + 2 ^ 23 * (e + 256) < 2 ^ 32" using assms by simp
  then show ?thesis using assms by (simp add: neg pos)
qed

lemma unpack_fields:
  assumes "m < 2 ^ 23" and "e < 256" and "f = m + 2 ^ 23 * (e + (if neg then 256 else 0))"
  shows "(f::nat) AND 0x007FFFFF = m"
    and "drop_bit 23 (f AND 0x7F800000) mod 256 = e"
    and "f AND 0x80000000 \<noteq> 0 \<longleftrightarrow> neg"
proof -
  define E where "E = e + (if neg then 256 else 0 :: nat)"
  have f: "f = m + 2 ^ 23 * E" by (simp only: assms(3) E_def)
  have m: "f mod 2 ^ 23 = m"
    using assms(1) by (simp only: f mod_mult_self2) simp
  have d: "f div 2 ^ 23 = E"
    using assms(1) by (simp only: f) simp
  show "f AND 0x007FFFFF = m"
    by (simp only: and_mantissa m)
  show "drop_bit 23 (f AND 0x7F800000) mod 256 = e"
    using assms(2) by (simp only: and_exponent d) (simp add: E_def)
  have "f div 2 ^ 31 = f div 2 ^ 23 div 2 ^ 8"
    by (simp add: div_mult2_eq [symmetric])
  also have "\<dots> = (if neg then 1 else 0)"
  proof -
    have "(e + 256) div 256 = 1" using assms(2) by (simp add: div_add_self2)
    with assms(2) show ?thesis by (simp only: d) (simp add: E_def)
  qed
  finally show "f AND 0x80000000 \<noteq> 0 \<longleftrightarrow> neg"
    by (simp only: and_sign) simp
qed

text \<open>
  Adding half of the remainder rounds up from a remainder of two thirds of the divisor:
  a value that is below a multiple \<open>a * K\<close> by at most a third of \<open>K\<close> is taken to
  \<open>a\<close>.
\<close>

lemma round_shift_recovers:
  assumes "I + d = a * K" and "3 * d \<le> K" and "0 < (K::nat)"
  shows "(I + (I mod K) div 2) div K = a"
proof (cases "d = 0")
  case True
  with assms show ?thesis by simp
next
  case False
  with assms(1) have "a \<noteq> 0" by (cases a) auto
  then obtain q where a: "a = Suc q" by (cases a) auto
  define r where "r = K - d"
  have r: "r < K" "2 * d \<le> r" "r + d = K" "0 < r"
    using assms(2,3) False by (simp_all add: r_def)
  have I: "I = q * K + r"
    using assms(1) r(3) by (simp add: a)
  then have m: "I mod K = r" using r(1) by simp
  have lo: "K * a \<le> I + r div 2"
  proof -
    have "d \<le> r div 2" using r(2) by simp
    then have "K \<le> r + r div 2" using r(3) by linarith
    then show ?thesis by (simp add: I a)
  qed
  have hi: "I + r div 2 < K * Suc a"
  proof -
    have "r + r div 2 < 2 * K" using r(1) by linarith
    then show ?thesis by (simp add: I a)
  qed
  from lo hi have "(I + r div 2) div K = a" by (rule div_nat_eqI)
  with m show ?thesis by simp
qed

text \<open>
  The two normalisation loops of \<^verbatim>\<open>msensor_itof\<close>: the first divides by a power of
  two and counts the exponent up, the second multiplies and counts it down.
\<close>

lemma itof_shift_down_spec:
  "e < 256 \<Longrightarrow> \<exists>j. itof_shift_down f e = (f div 2 ^ j, (e + j) mod 256)
     \<and> f div 2 ^ j < 2 ^ 24
     \<and> (f < 2 ^ 24 \<longrightarrow> j = 0)
     \<and> (2 ^ 24 \<le> f \<longrightarrow> 0 < j \<and> 2 ^ 23 \<le> f div 2 ^ j)"
proof (induction f e rule: itof_shift_down.induct)
  case (1 f e)
  show ?case
  proof (cases "2 ^ 24 \<le> f")
    case False
    then have "itof_shift_down f e = (f, e)"
      by (subst itof_shift_down.simps) simp
    with False "1.prems" show ?thesis by (intro exI [of _ 0]) simp
  next
    case True
    have "(e + 1) mod 256 < 256" by simp
    from "1.IH" [OF True this] obtain j where
      j: "itof_shift_down (drop_bit 1 f) ((e + 1) mod 256)
            = (drop_bit 1 f div 2 ^ j, ((e + 1) mod 256 + j) mod 256)"
        "drop_bit 1 f div 2 ^ j < 2 ^ 24"
        "drop_bit 1 f < 2 ^ 24 \<longrightarrow> j = 0"
        "2 ^ 24 \<le> drop_bit 1 f \<longrightarrow> 0 < j \<and> 2 ^ 23 \<le> drop_bit 1 f div 2 ^ j"
      by blast
    have d: "drop_bit 1 f div 2 ^ j = f div 2 ^ Suc j"
      by (simp add: drop_bit_eq_div div_mult2_eq)
    have e: "((e + 1) mod 256 + j) mod 256 = (e + Suc j) mod 256"
      by (simp add: mod_add_left_eq)
    have "2 ^ 23 \<le> drop_bit 1 f div 2 ^ j"
    proof (cases "2 ^ 24 \<le> drop_bit 1 f")
      case True
      with j(4) show ?thesis by simp
    next
      case False
      with j(3) have "j = 0" by simp
      moreover have "2 ^ 23 \<le> drop_bit 1 f" using True by (simp add: drop_bit_eq_div)
      ultimately show ?thesis by simp
    qed
    moreover have "itof_shift_down f e = itof_shift_down (drop_bit 1 f) ((e + 1) mod 256)"
      using True by (subst itof_shift_down.simps) simp
    ultimately show ?thesis
      using True j(1,2) by (intro exI [of _ "Suc j"]) (simp only: d e, simp)
  qed
qed

lemma itof_shift_up_spec:
  assumes "0 < f" and "f < 2 ^ 24" and "24 \<le> w" and "e < 256"
  shows "\<exists>j. itof_shift_up w f e = Some (f * 2 ^ j, (e + 255 * j) mod 256)
     \<and> 2 ^ 23 \<le> f * 2 ^ j \<and> f * 2 ^ j < 2 ^ 24"
  using assms(1,2,4)
proof (induction "2 ^ 23 - f" arbitrary: f e rule: less_induct)
  case less
  show ?case
  proof (cases "f < 2 ^ 23")
    case False
    then have "itof_shift_up w f e = Some (f, e)"
      by (subst itof_shift_up.simps) simp
    with False less.prems show ?thesis by (intro exI [of _ 0]) simp
  next
    case True
    have "(2::nat) ^ 24 \<le> 2 ^ w"
      using assms(3) by (intro power_increasing) simp_all
    with True have "2 * f < 2 ^ w" by simp
    then have u: "ulong w (push_bit 1 f) = 2 * f"
      by (simp add: ulong_def push_bit_eq_mult)
    have "\<exists>j. itof_shift_up w (2 * f) ((e + 255) mod 256)
          = Some (2 * f * 2 ^ j, ((e + 255) mod 256 + 255 * j) mod 256)
        \<and> 2 ^ 23 \<le> 2 * f * 2 ^ j \<and> 2 * f * 2 ^ j < 2 ^ 24"
      using True less.prems by (intro less.hyps) simp_all
    then obtain j where
      j: "itof_shift_up w (2 * f) ((e + 255) mod 256)
          = Some (2 * f * 2 ^ j, ((e + 255) mod 256 + 255 * j) mod 256)"
        "2 ^ 23 \<le> 2 * f * 2 ^ j" "2 * f * 2 ^ j < 2 ^ 24"
      by blast
    have "((e + 255) mod 256 + 255 * j) mod 256 = (e + 255 + 255 * j) mod 256"
      by (simp only: mod_add_left_eq)
    moreover have "e + 255 + 255 * j = e + 255 * Suc j" by simp
    ultimately have e: "((e + 255) mod 256 + 255 * j) mod 256 = (e + 255 * Suc j) mod 256"
      by simp
    have s: "itof_shift_up w f e = itof_shift_up w (2 * f) ((e + 255) mod 256)"
      using True u by (subst itof_shift_up.simps) simp
    have m: "2 * f * 2 ^ j = f * 2 ^ Suc j" by simp
    have "itof_shift_up w f e
        = Some (2 * f * 2 ^ j, ((e + 255) mod 256 + 255 * j) mod 256)"
      using s j(1) by simp
    then have "itof_shift_up w f e = Some (f * 2 ^ Suc j, (e + 255 * Suc j) mod 256)"
      by (simp only: e m)
    moreover have "2 ^ 23 \<le> f * 2 ^ Suc j" "f * 2 ^ Suc j < 2 ^ 24"
      using j(2,3) by (simp_all only: m)
    ultimately show ?thesis by blast
  qed
qed

lemma round_up_case:
  fixes a D j F1 :: nat
  assumes F1: "F1 = (a * 2 ^ 23) div D" and D0: "0 < D" and D: "3 * D \<le> 2 ^ 23"
  shows "(F1 * 2 ^ j * D + (F1 * 2 ^ j * D) mod 2 ^ (23 + j) div 2) div 2 ^ (23 + j) = a"
proof (rule round_shift_recovers [where d = "2 ^ j * ((a * 2 ^ 23) mod D)"])
  have "F1 * D + (a * 2 ^ 23) mod D = a * 2 ^ 23"
    by (simp add: F1)
  then have "2 ^ j * (F1 * D + (a * 2 ^ 23) mod D) = 2 ^ j * (a * 2 ^ 23)"
    by simp
  then show "F1 * 2 ^ j * D + 2 ^ j * ((a * 2 ^ 23) mod D) = a * 2 ^ (23 + j)"
    by (simp add: algebra_simps power_add)
next
  have "(a * 2 ^ 23) mod D < D" using D0 by simp
  with D have "3 * ((a * 2 ^ 23) mod D) \<le> 2 ^ 23" by linarith
  then have "2 ^ j * (3 * ((a * 2 ^ 23) mod D)) \<le> 2 ^ j * 2 ^ 23"
    by (rule mult_le_mono2)
  then show "3 * (2 ^ j * ((a * 2 ^ 23) mod D)) \<le> 2 ^ (23 + j)"
    by (simp add: algebra_simps power_add)
next
  show "0 < (2::nat) ^ (23 + j)" by simp
qed

lemma round_down_case:
  fixes a D j F1 M :: nat
  assumes F1: "F1 = (a * 2 ^ 23) div D" and D: "0 < D" and M: "M = F1 div 2 ^ j"
    and M23: "2 ^ 23 \<le> M" and j: "j \<le> 23" and a: "3 * a \<le> 2 ^ 23"
  shows "(M * D + (M * D) mod 2 ^ (23 - j) div 2) div 2 ^ (23 - j) = a"
proof -
  define K :: nat where "K = 2 ^ (23 - j)"
  define J :: nat where "J = 2 ^ j"
  define t where "t = F1 mod J"
  define r where "r = (a * 2 ^ 23) mod D"
  have JK: "K * J = 2 ^ 23"
    using j by (simp add: K_def J_def flip: power_add)
  have J: "0 < J" by (simp add: J_def)
  have t: "t < J" using J by (simp add: t_def)
  have r: "r < D" using D by (simp add: r_def)
  have F: "F1 = M * J + t" by (simp only: M t_def J_def div_mult_mod_eq)
  have N: "a * 2 ^ 23 = F1 * D + r" by (simp add: F1 r_def)
  have eq: "(a * K) * J = (M * D) * J + (t * D + r)"
  proof -
    have "(a * K) * J = a * 2 ^ 23" by (simp add: JK mult.assoc)
    also have "\<dots> = (M * J + t) * D + r" by (simp only: N F)
    finally show ?thesis by (simp add: algebra_simps)
  qed
  then have "(M * D) * J \<le> (a * K) * J" by simp
  then have le: "M * D \<le> a * K" using J by simp
  define d where "d = a * K - M * D"
  have d: "M * D + d = a * K" using le by (simp add: d_def)
  have "d * J = t * D + r"
  proof -
    have "(M * D + d) * J = (M * D) * J + (t * D + r)" by (simp only: d eq)
    then show ?thesis by (simp add: algebra_simps)
  qed
  moreover have "t * D + r < J * D"
  proof -
    have "t * D + r < t * D + D" using r by simp
    also have "\<dots> = Suc t * D" by simp
    also have "\<dots> \<le> J * D" using t by (intro mult_le_mono1) simp
    finally show ?thesis .
  qed
  ultimately have "d * J < D * J" by (simp add: mult.commute)
  then have dD: "d < D" by simp
  have "2 ^ 23 * (J * D) \<le> M * (J * D)" using M23 by (rule mult_le_mono1)
  also have "\<dots> \<le> (M * J + t) * D + r" by (simp add: algebra_simps)
  also have "\<dots> = a * 2 ^ 23" by (simp only: N F)
  finally have "J * D \<le> a" by simp
  then have "3 * D * J \<le> 3 * a" by (simp add: mult.commute)
  also have "\<dots> \<le> K * J" using a by (simp add: JK)
  finally have "3 * D \<le> K" using J by simp
  with dD have "3 * d \<le> K" by simp
  from round_shift_recovers [OF d this] show ?thesis by (simp add: K_def)
qed

text \<open>
  The mantissa and exponent that \<^verbatim>\<open>msensor_itof\<close> reaches from \<open>a * 2 ^ 23 div D\<close>,
  and what the shift of \<^verbatim>\<open>msensor_ftoi\<close> makes of the mantissa times \<open>D\<close>.
\<close>

lemma normalise_round:
  fixes a D w :: nat
  assumes a: "0 < a" "3 * a \<le> 2 ^ 23" and D: "0 < D" "3 * D \<le> 2 ^ 23"
    and w: "a * 2 ^ 23 < 2 ^ w" "3 * 2 ^ 23 * D \<le> 2 ^ w"
  shows "\<exists>F' e' M e. itof_shift_down ((a * 2 ^ 23) div D) 127 = (F', e')
      \<and> itof_shift_up w F' e' = Some (M, e)
      \<and> 2 ^ 23 \<le> M \<and> M < 2 ^ 24 \<and> 0 < e \<and> e < 150 \<and> 150 - e < w
      \<and> (M * D + (M * D) mod 2 ^ (150 - e) div 2) div 2 ^ (150 - e) = a"
proof -
  define N where "N = a * 2 ^ 23"
  define F1 where "F1 = N div D"
  define r where "r = N mod D"
  have N: "F1 * D + r = N" by (simp add: F1_def r_def)
  have r: "r < D" using D(1) by (simp add: r_def)
  have N23: "2 ^ 23 \<le> N" using a(1) by (simp add: N_def)
  have "(2::nat) ^ 23 < 2 ^ w" using N23 w(1) by (simp add: N_def)
  then have "23 < w" by (simp only: power_strict_increasing_iff) 
  then have w24: "24 \<le> w" by simp
  have "D \<le> N" using D(2) N23 by linarith
  then have F1pos: "0 < F1" using D(1) by (simp add: F1_def div_greater_zero_iff)
  have F1le: "F1 \<le> N" by (simp add: F1_def)
  have F1': "(a * 2 ^ 23) div D = F1" by (simp only: F1_def N_def)
  show ?thesis
  proof (cases "2 ^ 24 \<le> F1")
    case False
    then have sd: "itof_shift_down F1 127 = (F1, 127)"
      by (subst itof_shift_down.simps) simp
    have "F1 < 2 ^ 24" using False by simp
    from itof_shift_up_spec [OF F1pos this w24, of 127]
    obtain j where su: "itof_shift_up w F1 127 = Some (F1 * 2 ^ j, (127 + 255 * j) mod 256)"
      and lo: "2 ^ 23 \<le> F1 * 2 ^ j" and hi: "F1 * 2 ^ j < 2 ^ 24"
      by auto
    have "1 \<le> F1" using F1pos by simp
    then have "1 * 2 ^ j \<le> F1 * 2 ^ j" by (rule mult_le_mono1)
    then have "(2::nat) ^ j \<le> F1 * 2 ^ j" by simp
    from this hi have "(2::nat) ^ j < 2 ^ 24" by (rule le_less_trans)
    then have j: "j < 24" by (simp only: power_strict_increasing_iff)
    have "127 + 255 * j = (127 - j) + 256 * j" using j by simp
    then have "(127 + 255 * j) mod 256 = (127 - j) mod 256"
      by (simp only: mod_mult_self2)
    then have e: "(127 + 255 * j) mod 256 = 127 - j" by simp
    have X: "2 ^ 24 \<le> 3 * (F1 * D)"
    proof -
      have "3 * N \<le> 3 * (F1 * D) + 3 * D" using N r by linarith
      moreover have "3 * (2::nat) ^ 23 = 2 ^ 24 + 2 ^ 23" by simp
      moreover have "3 * 2 ^ 23 \<le> 3 * N" using N23 by simp
      ultimately show ?thesis using D(2) by linarith
    qed
    have "(2::nat) ^ 47 = 2 ^ 23 * 2 ^ 24" by (simp flip: power_add)
    also have "\<dots> \<le> 2 ^ 23 * (3 * (F1 * D))" using X by (rule mult_le_mono2)
    also have "\<dots> = F1 * (3 * 2 ^ 23 * D)" by (simp add: algebra_simps)
    also have "\<dots> \<le> F1 * 2 ^ w" using w(2) by (rule mult_le_mono2)
    also have "\<dots> = 2 ^ w * F1" by (rule mult.commute)
    finally have big: "2 ^ 47 \<le> 2 ^ w * F1" .
    have "2 ^ (23 + j) * F1 = 2 ^ 23 * (F1 * 2 ^ j)" by (simp add: power_add algebra_simps)
    also have "\<dots> < 2 ^ 23 * 2 ^ 24" using hi by simp
    also have "\<dots> = 2 ^ 47" by (simp flip: power_add)
    finally have "2 ^ (23 + j) * F1 < 2 ^ 47" .
    from this big have "2 ^ (23 + j) * F1 < 2 ^ w * F1" by (rule less_le_trans)
    then have "(2::nat) ^ (23 + j) < 2 ^ w" by (simp only: mult_less_cancel2)
    then have kw: "23 + j < w" by (simp only: power_strict_increasing_iff)
    have k: "150 - (127 - j) = 23 + j" using j by simp
    have "(F1 * 2 ^ j * D + (F1 * 2 ^ j * D) mod 2 ^ (23 + j) div 2) div 2 ^ (23 + j) = a"
      using D by (intro round_up_case) (simp_all add: F1_def N_def)
    then have round: "(F1 * 2 ^ j * D + (F1 * 2 ^ j * D) mod 2 ^ (150 - (127 - j)) div 2)
        div 2 ^ (150 - (127 - j)) = a"
      by (simp only: k)
    have su': "itof_shift_up w F1 127 = Some (F1 * 2 ^ j, 127 - j)"
      using su by (simp only: e)
    have e150: "0 < 127 - j" "127 - j < 150" using j by simp_all
    have kw': "150 - (127 - j) < w" using kw by (simp only: k)
    show ?thesis
      unfolding F1'
      by (rule exI [of _ F1], rule exI [of _ 127], rule exI [of _ "F1 * 2 ^ j"],
          rule exI [of _ "127 - j"]) (intro conjI sd su' lo hi e150 kw' round)
  next
    case True
    have "(127::nat) < 256" by simp
    from itof_shift_down_spec [OF this, of F1]
    obtain j where sd: "itof_shift_down F1 127 = (F1 div 2 ^ j, (127 + j) mod 256)"
      and hi: "F1 div 2 ^ j < 2 ^ 24"
      and imp: "2 ^ 24 \<le> F1 \<longrightarrow> 0 < j \<and> 2 ^ 23 \<le> F1 div 2 ^ j"
      by blast
    from imp True have j0: "0 < j" and lo: "2 ^ 23 \<le> F1 div 2 ^ j"
      by blast+
    define M where "M = F1 div 2 ^ j"
    have su: "itof_shift_up w M e' = Some (M, e')" for e'
      using lo by (subst itof_shift_up.simps) (simp add: M_def)
    have "2 ^ 23 * 2 ^ j \<le> M * 2 ^ j" using lo unfolding M_def by (rule mult_le_mono1)
    also have "\<dots> \<le> F1" by (simp add: M_def)
    also have "\<dots> \<le> a * 2 ^ 23" using F1le by (simp add: N_def)
    finally have "2 ^ j \<le> a" by simp
    with a(2) have "3 * 2 ^ j \<le> (2::nat) ^ 23" by simp
    then have "(2::nat) ^ j < 2 ^ 22" by simp
    then have j: "j < 22" by (simp only: power_strict_increasing_iff)
    then have e: "(127 + j) mod 256 = 127 + j" by simp
    have k: "150 - (127 + j) = 23 - j" by simp
    have "(M * D + (M * D) mod 2 ^ (23 - j) div 2) div 2 ^ (23 - j) = a"
      using D(1) lo j a(2) by (intro round_down_case [of F1]) (simp_all add: F1_def N_def M_def)
    then have round: "(M * D + (M * D) mod 2 ^ (150 - (127 + j)) div 2)
        div 2 ^ (150 - (127 + j)) = a"
      by (simp only: k)
    have sd': "itof_shift_down F1 127 = (M, 127 + j)"
      using sd by (simp only: e M_def)
    have e150: "0 < 127 + j" "127 + j < 150" using j by simp_all
    have kw': "150 - (127 + j) < w" using w24 by simp
    have M: "2 ^ 23 \<le> M" "M < 2 ^ 24" using lo hi by (simp_all only: M_def)
    show ?thesis
      unfolding F1'
      by (rule exI [of _ M], rule exI [of _ "127 + j"], rule exI [of _ M],
          rule exI [of _ "127 + j"]) (intro conjI sd' su M e150 kw' round)
  qed
qed

text \<open>
  The round trip is exact for every non-zero \<open>v\<close> with \<open>3 * \<bar>v\<bar> \<le> 2 ^ 23\<close> and every
  \<open>dp\<close> with \<open>3 * 10 ^ dp \<le> 2 ^ 23\<close>, provided the two products of the conversions fit
  the \<^verbatim>\<open>unsigned long\<close>: \<open>\<bar>v\<bar> * 2 ^ 23 < 2 ^ w\<close> in \<^verbatim>\<open>msensor_itof\<close> and
  \<open>3 * 2 ^ 23 * 10 ^ dp \<le> 2 ^ w\<close> in \<^verbatim>\<open>msensor_ftoi\<close>. On the EV3 that is
  \<open>\<bar>v\<bar> < 512\<close> and \<open>dp \<le> 2\<close>; with 64 bits it is \<open>\<bar>v\<bar> \<le> 2796202\<close> and \<open>dp \<le> 6\<close>.
\<close>

lemma round_trip_exact:
  fixes v :: int and w dp :: nat
  assumes v: "v \<noteq> 0" "3 * nat \<bar>v\<bar> \<le> 2 ^ 23"
    and dp: "3 * 10 ^ dp \<le> (2::nat) ^ 23"
    and w: "nat \<bar>v\<bar> * 2 ^ 23 < 2 ^ w" "3 * 2 ^ 23 * 10 ^ dp \<le> (2::nat) ^ w"
  shows "\<exists>f. msensor_itof w v dp = Some f \<and> msensor_ftoi w f dp = Some v"
proof -
  define a where "a = nat \<bar>v\<bar>"
  define D :: nat where "D = 10 ^ dp"
  have a: "0 < a" "3 * a \<le> 2 ^ 23" using v by (simp_all add: a_def)
  have D: "0 < D" "3 * D \<le> 2 ^ 23" using dp by (simp_all add: D_def)
  have wa: "a * 2 ^ 23 < 2 ^ w" and wD: "3 * 2 ^ 23 * D \<le> 2 ^ w"
    using w by (simp_all add: a_def D_def)
  from normalise_round [OF a D wa wD]
  obtain F' e' M e where sd: "itof_shift_down ((a * 2 ^ 23) div D) 127 = (F', e')"
    and su: "itof_shift_up w F' e' = Some (M, e)"
    and M: "2 ^ 23 \<le> M" "M < 2 ^ 24" and e: "0 < e" "e < 150" and k: "150 - e < w"
    and round: "(M * D + (M * D) mod 2 ^ (150 - e) div 2) div 2 ^ (150 - e) = a"
    by blast
  define m where "m = M - 2 ^ 23"
  have m: "m < 2 ^ 23" "m + 2 ^ 23 = M" using M by (simp_all add: m_def)
  have e256: "e < 256" using e by simp
  define f where "f = m + 2 ^ 23 * (e + (if v < 0 then 256 else 0))"
  have "(2::nat) ^ 23 \<le> a * 2 ^ 23" using a(1) by simp
  from this wa have "(2::nat) ^ 23 < 2 ^ w" by (rule le_less_trans)
  then have "23 < w" by (simp only: power_strict_increasing_iff)
  then have "(2::nat) ^ 24 \<le> 2 ^ w" by (intro power_increasing) simp_all
  with M(2) have Mw: "M < 2 ^ w" by simp
  have aw: "a < 2 ^ w"
  proof -
    have "a * 1 \<le> a * 2 ^ 23" by (rule mult_le_mono2) simp
    with wa show ?thesis by simp
  qed
  \<comment> \<open>the conversion to float\<close>
  have abs: "v * (if v < 0 then - 1 else 1) = int a"
    by (simp add: a_def)
  have "int a < 2 ^ 31" using a(2) by simp
  then have ti: "to_int (int a) = int a" by (intro to_int_id) simp_all
  have "int a mod 2 ^ w = int a" using aw
    by (simp flip: of_nat_power of_nat_mod)
  then have start: "nat (to_int (v * (if v < 0 then - 1 else 1)) mod 2 ^ w) = a"
    by (simp only: abs ti)
  have f0: "ulong w (push_bit 23 a) = a * 2 ^ 23"
    using wa by (simp add: ulong_def push_bit_eq_mult)
  have sub: "ulong w (M + 2 ^ w - 2 ^ 23) = m"
  proof -
    have "M + 2 ^ w - 2 ^ 23 = m + 2 ^ w" using M(1) by (simp add: m_def)
    moreover have "m < 2 ^ w" using Mw by (simp add: m_def)
    ultimately show ?thesis by (simp add: ulong_def)
  qed
  have sgn: "((if v < 0 then - 1 else 1 :: int) = - 1) = (v < 0)" by simp
  have pack: "((if v < 0 then m OR 0x80000000 else m) OR push_bit 23 e) mod 2 ^ 32 = f"
    unfolding f_def by (rule pack_fields [OF m(1) e256])
  have itof: "msensor_itof w v dp = Some f"
    unfolding msensor_itof_def Let_def
    by (simp only: start f0 itof_scale_eq D_def [symmetric] sd prod.case su option.case
        sub sgn pack v(1) if_False)
  \<comment> \<open>and back\<close>
  have fields: "f AND 0x007FFFFF = m" "drop_bit 23 (f AND 0x7F800000) mod 256 = e"
    "f AND 0x80000000 \<noteq> 0 \<longleftrightarrow> v < 0"
    using unpack_fields [OF m(1) e256 f_def] by blast+
  have MD: "M * D < 2 ^ w"
  proof -
    have "M * D < 2 ^ 24 * D" using M(2) D(1) by simp
    also have "\<dots> \<le> 3 * 2 ^ 23 * D" by simp
    also note wD
    finally show ?thesis .
  qed
  have scale: "ftoi_scale w M dp = M * D"
    using MD by (simp add: ftoi_scale_less [OF Mw] D_def)
  have nowrap: "M * D + (M * D) mod 2 ^ (150 - e) div 2 < 2 ^ w"
  proof -
    define X where "X = M * D"
    define h where "h = X mod 2 ^ (150 - e) div 2"
    have "2 * h \<le> X mod 2 ^ (150 - e)" by (simp add: h_def)
    also have "\<dots> \<le> X" by simp
    finally have "2 * (X + h) \<le> 3 * X" by simp
    also have "\<dots> < 3 * (2 ^ 24 * D)" using M(2) D(1) by (simp add: X_def)
    also have "\<dots> = 2 * (3 * 2 ^ 23 * D)" by simp
    also have "\<dots> \<le> 2 * 2 ^ w" using wD by simp
    finally have "X + h < 2 ^ w" by simp
    then show ?thesis by (simp only: X_def h_def)
  qed
  have i0: "ulong w (m + 2 ^ 23) = M"
    using Mw by (simp only: m(2) ulong_def) simp
  have i1: "ulong w (M * D + drop_bit 1 ((M * D) mod 2 ^ (150 - e)))
      = M * D + (M * D) mod 2 ^ (150 - e) div 2"
    using nowrap by (simp add: ulong_def drop_bit_eq_div)
  have mag: "ftoi_magnitude w e m dp = Some a"
    unfolding ftoi_magnitude_def Let_def i0 scale i1
    using e(2) k round by (simp add: drop_bit_eq_div)
  have "a < 2 ^ 31" using a(2) by simp
  from ftoi_normal_value [OF fields(2) [symmetric] _ _ _ this, of w dp] mag e
  have "msensor_ftoi w f dp = Some (if f AND 0x80000000 \<noteq> 0 then - int a else int a)"
    by (simp add: fields(1))
  also have "\<dots> = Some v"
    by (simp only: fields(3)) (simp add: a_def)
  finally show ?thesis using itof by blast
qed

lemma round_trip_exact_ev3:
  assumes "v \<noteq> 0" and "\<bar>v\<bar> < 512" and "dp \<le> 2"
  shows "\<exists>f. msensor_itof BITS_PER_LONG v dp = Some f
    \<and> msensor_ftoi BITS_PER_LONG f dp = Some v"
proof -
  have "(10::nat) ^ dp \<le> 10 ^ 2"
    using assms(3) by (intro power_increasing) simp_all
  then have D: "(10::nat) ^ dp \<le> 100" by simp
  have a: "nat \<bar>v\<bar> < 512" using assms(2) by simp
  show ?thesis
    using assms(1) a D
    by (intro round_trip_exact) (simp_all add: BITS_PER_LONG_def)
qed

lemma round_trip_exact_64_bit:
  assumes "v \<noteq> 0" and "\<bar>v\<bar> \<le> 2796202" and "dp \<le> 6"
  shows "\<exists>f. msensor_itof 64 v dp = Some f \<and> msensor_ftoi 64 f dp = Some v"
proof -
  have "(10::nat) ^ dp \<le> 10 ^ 6"
    using assms(3) by (intro power_increasing) simp_all
  then have D: "(10::nat) ^ dp \<le> 1000000" by simp
  have a: "nat \<bar>v\<bar> \<le> 2796202" using assms(2) by simp
  show ?thesis
    using assms(1) a D
    by (intro round_trip_exact) simp_all
qed

text \<open>
  With a 64-bit \<^verbatim>\<open>unsigned long\<close> the products of the round trip of 100 with three
  decimals fit, and the value comes back.
\<close>

lemma round_trip_64_bit:
  "msensor_itof 64 100 3 = Some 0x3DCCCCC0 \<and> msensor_ftoi 64 0x3DCCCCC0 3 = Some 100"
  by (simp add: msensor_itof_def msensor_ftoi_def ftoi_magnitude_def ulong_def to_int_def
      itof_shift_up.simps itof_scale_eq ftoi_scale_less push_bit_eq_mult drop_bit_eq_div)

section \<open>Claims about the numeric codec\<close>




text \<open>
  C3 (the code departs from the claim). The claim says that on a right shift the
  result is the scaled value rounded to the nearest integer, ties up. The code adds
  half of the remainder \<^verbatim>\<open>m >> 1\<close>, not half of the divisor, so a fraction is rounded
  up only from about two thirds. The bit pattern \<open>0x3F19999A\<close> is the float nearest
  to 0.6 (exponent field 126, mantissa field \<open>0x19999A\<close>): with \<open>dp = 0\<close> the scaled
  mantissa is \<open>0x99999A\<close>, the shift is by 24, the nearest integer is 1 and the code
  returns 0, for a 32-bit and for a 64-bit \<^verbatim>\<open>unsigned long\<close>. The lemmas
  \<open>half_remainder_rounding\<close> and \<open>round_half_up_div\<close> give the two rules side by
  side.
\<close>

theorem ftoi_rounding_failing_input:
  "drop_bit 23 ((0x3F19999A::nat) AND 0x7F800000) mod 256 = 126
   \<and> ulong BITS_PER_LONG ((0x3F19999A AND 0x007FFFFF) + 2 ^ 23) = 0x99999A
   \<and> round_half_up 0x99999A (150 - 126) = 1
   \<and> msensor_ftoi BITS_PER_LONG 0x3F19999A 0 = Some 0
   \<and> msensor_ftoi 64 0x3F19999A 0 = Some 0"
  by (simp add: msensor_ftoi_def ftoi_magnitude_def ulong_def to_int_def BITS_PER_LONG_def
      round_half_up_def drop_bit_eq_div)

text \<open>
  C4 (the code departs from the claim). The claim says that for \<open>dp\<close> in
  \<open>{0, 1, 2, 3}\<close> and moderate \<open>v\<close> the round trip \<open>float_to_fixed (fixed_to_float v dp) dp\<close>
  is within 1 of \<open>v\<close>. On the EV3 the working variables are 32-bit
  \<^verbatim>\<open>unsigned long\<close>s. For \<open>v = 100\<close>, \<open>dp = 3\<close>, \<^verbatim>\<open>msensor_itof\<close> returns
  \<open>0x3DCCCCC0\<close> (just under 0.1) and \<^verbatim>\<open>msensor_ftoi\<close> multiplies the 24-bit mantissa
  by 1000, which wraps modulo \<open>2 ^ 32\<close>: the round trip gives 4. For \<open>v = 600\<close>,
  \<open>dp = 0\<close>, \<^verbatim>\<open>f <<= 23\<close> in \<^verbatim>\<open>msensor_itof\<close> already wraps and the round trip
  gives 88.
\<close>

theorem round_trip_failing_input:
  "msensor_itof BITS_PER_LONG 100 3 = Some 0x3DCCCCC0
   \<and> msensor_ftoi BITS_PER_LONG 0x3DCCCCC0 3 = Some 4
   \<and> Option.bind (msensor_itof BITS_PER_LONG 600 0) (\<lambda>f. msensor_ftoi BITS_PER_LONG f 0)
       = Some 88"
  by (simp add: msensor_itof_def msensor_ftoi_def ftoi_magnitude_def ulong_def to_int_def
      BITS_PER_LONG_def itof_shift_up.simps itof_scale_eq ftoi_scale_less
      push_bit_eq_mult drop_bit_eq_div)

text \<open>
  C5 (the code departs from the claim). The claim says that \<open>fixed_to_float\<close> terminates
  for every non-zero \<open>v\<close> and every \<open>dp\<close>. For \<open>v = 1\<close>, \<open>dp = 7\<close> the working mantissa
  \<open>2 ^ 23 = 8388608\<close> is divided by ten seven times and becomes 0; the loop
  \<^verbatim>\<open>while (f < (1 << 23)) { f <<= 1; e--; }\<close> then never ends. This does not depend on
  the width of \<^verbatim>\<open>unsigned long\<close>. On the EV3 the same happens for \<open>v = 512\<close>,
  \<open>dp = 0\<close>, where \<^verbatim>\<open>f <<= 23\<close> is \<open>2 ^ 32\<close> and wraps to 0.
\<close>

theorem itof_diverges_failing_input:
  "msensor_itof BITS_PER_LONG 1 7 = None
   \<and> msensor_itof 64 1 7 = None
   \<and> msensor_itof BITS_PER_LONG 512 0 = None"
  by (simp add: msensor_itof_def to_int_def ulong_def BITS_PER_LONG_def itof_scale_eq
      itof_shift_up_zero push_bit_eq_mult drop_bit_eq_div)

text \<open>
  C7 (as stated, refuted). The claim says that for every pattern with a normal exponent
  field a negative input gives a result \<open>\<le> 0\<close>. The bit pattern \<open>0xCF000001\<close> has the
  sign bit set, exponent field 158 and mantissa field 1, the float \<open>- (2 ^ 31 + 256)\<close>.
  With \<open>dp = 0\<close> the magnitude is \<open>2 ^ 31 + 256\<close>, and its negation read as a 32-bit
  \<^verbatim>\<open>int\<close> is \<open>2 ^ 31 - 256\<close>: a positive result.
\<close>

theorem ftoi_sign_counterexample:
  "(0xCF000001::nat) AND 0x80000000 \<noteq> 0
   \<and> drop_bit 23 ((0xCF000001::nat) AND 0x7F800000) mod 256 = 158
   \<and> msensor_ftoi BITS_PER_LONG 0xCF000001 0 = Some 2147483392
   \<and> msensor_ftoi 64 0xCF000001 0 = Some 2147483392"
  by (simp add: msensor_ftoi_def ftoi_magnitude_def ulong_def to_int_def BITS_PER_LONG_def
      push_bit_eq_mult)

text \<open>
  C7 (amended). For every bit pattern with a non-zero, non-all-ones exponent field and
  every \<open>dp\<close>, if the shifts of \<^verbatim>\<open>msensor_ftoi\<close> are defined and the magnitude it
  computes before the sign is applied is below \<open>2 ^ 31\<close>, then \<^verbatim>\<open>msensor_ftoi\<close>
  returns a result, \<open>\<le> 0\<close> when the sign bit is set and \<open>\<ge> 0\<close> when it is clear.
\<close>

theorem ftoi_sign_preserving:
  assumes "e = drop_bit 23 (f AND 0x7F800000) mod 256" and "e \<noteq> 0" and "e \<noteq> 255"
    and "ftoi_magnitude w e (f AND 0x007FFFFF) dp = Some m" and "m < 2 ^ 31"
  shows "\<exists>r. msensor_ftoi w f dp = Some r \<and> (if f AND 0x80000000 \<noteq> 0 then r \<le> 0 else 0 \<le> r)"
  using ftoi_normal_value [OF assms] by simp

theorem ftoi_sign_preserving_witness:
  "(128::nat) = drop_bit 23 (0xC0200000 AND 0x7F800000) mod 256
   \<and> ftoi_magnitude BITS_PER_LONG 128 (0xC0200000 AND 0x007FFFFF) 1 = Some 25
   \<and> (0xC0200000::nat) AND 0x80000000 \<noteq> 0
   \<and> (\<exists>r. msensor_ftoi BITS_PER_LONG 0xC0200000 1 = Some r \<and> r \<le> 0)"
proof -
  have e: "(128::nat) = drop_bit 23 (0xC0200000 AND 0x7F800000) mod 256"
    by simp
  have m: "ftoi_magnitude BITS_PER_LONG 128 (0xC0200000 AND 0x007FFFFF) 1 = Some 25"
    by (simp add: ftoi_magnitude_def ulong_def BITS_PER_LONG_def drop_bit_eq_div)
  have s: "(0xC0200000::nat) AND 0x80000000 \<noteq> 0"
    by simp
  from ftoi_sign_preserving [OF e _ _ m] s
  have "\<exists>r. msensor_ftoi BITS_PER_LONG 0xC0200000 1 = Some r \<and> r \<le> 0"
    by simp
  with e m s show ?thesis by blast
qed

section \<open>Facts about the device functions\<close>

lemma show_mode_loop_eq:
  "show_mode_loop mode i xs buf =
     buf @ concat (map (\<lambda>s. s @ '' '') (map (bracket mode) (enumerate i (map name xs))))"
  by (induction xs arbitrary: i buf) simp_all

lemma concat_join_space:
  "ys \<noteq> [] \<Longrightarrow> concat (map (\<lambda>s. s @ '' '') ys) = join_space ys @ '' ''"
  by (induction ys rule: join_space.induct) simp_all

lemma store_mode_loop_no_match:
  "\<forall>m \<in> set xs. name m \<noteq> buf \<Longrightarrow>
   store_mode_loop ms buf count i xs = (Error (- EINVAL), ms)"
  by (induction xs arbitrary: i) (auto simp: sysfs_streq_def)

lemma store_mode_loop_match:
  "k < length xs \<Longrightarrow> name (xs ! k) = buf \<Longrightarrow> \<forall>j < k. name (xs ! j) \<noteq> buf \<Longrightarrow>
   set_mode ms (drv_context ms) (i + k) = (err, c) \<Longrightarrow>
   store_mode_loop ms buf count i xs =
     (if err \<noteq> 0 then Error err else Ok count, ms\<lparr>drv_context := c\<rparr>)"
proof (induction xs arbitrary: i k)
  case Nil
  then show ?case by simp
next
  case (Cons x xs)
  show ?case
  proof (cases k)
    case 0
    with Cons.prems show ?thesis by (simp add: sysfs_streq_def)
  next
    case (Suc k')
    from Cons.prems(3) Suc have x: "name x \<noteq> buf" by auto
    have "store_mode_loop ms buf count (Suc i) xs =
        (if err \<noteq> 0 then Error err else Ok count, ms\<lparr>drv_context := c\<rparr>)"
      using Cons.prems Suc by (intro Cons.IH [of k']) auto
    with x show ?thesis by (auto simp: sysfs_streq_def)
  qed
qed

lemma distinct_names_first:
  assumes "distinct (map name xs)" and "k < length xs" and "name (xs ! k) = buf"
  shows "\<forall>j < k. name (xs ! j) \<noteq> buf"
proof (intro allI impI)
  fix j assume j: "j < k"
  with assms(2) have "(map name xs ! j = map name xs ! k) = (j = k)"
    by (intro nth_eq_iff_index_eq assms(1)) simp_all
  with assms(2,3) j show "name (xs ! j) \<noteq> buf" by simp
qed

lemma take2_drop: "k + 2 \<le> length xs \<Longrightarrow> take 2 (drop k xs) = [xs ! k, xs ! Suc k]"
  by (simp add: numeral_2_eq_2 take_Suc_conv_app_nth)

lemma load_le_2:
  assumes "0 \<le> index" and "2 * nat index + 2 \<le> length raw"
  shows "load_le raw (index * 2) 2 =
    Some (unat (raw ! (2 * nat index)) + 256 * unat (raw ! (2 * nat index + 1)))"
proof -
  have n: "nat (index * 2) = 2 * nat index"
    using assms(1) by (simp add: nat_mult_distrib)
  have "take 2 (drop (2 * nat index) raw) = [raw ! (2 * nat index), raw ! Suc (2 * nat index)]"
    using assms(2) by (intro take2_drop) simp
  then show ?thesis using assms by (simp add: load_le_def n)
qed

lemma sint16_of_bytes:
  "sint (word_of_nat (unat lo + 256 * unat hi) :: 16 word) = s16_of_bytes (lo :: 8 word) hi"
proof -
  define u where "u = int (unat lo) + 256 * int (unat hi)"
  have "unat lo < 256" and "unat hi < 256"
    using unsigned_less [of lo, where ?'a = nat] unsigned_less [of hi, where ?'a = nat]
    by simp_all
  then have u: "0 \<le> u" "u < 65536"
    unfolding u_def by linarith+
  have "word_of_nat (unat lo + 256 * unat hi) = (word_of_int u :: 16 word)"
    unfolding u_def by simp
  then have "sint (word_of_nat (unat lo + 256 * unat hi) :: 16 word)
      = (u + 32768) mod 65536 - 32768"
    by (simp only: int_word_sint) simp
  also have "\<dots> = (if u < 32768 then u else u - 65536)"
  proof (cases "u < 32768")
    case True
    with u show ?thesis by simp
  next
    case False
    have e: "u + 32768 = (u - 32768) + 65536" by simp
    have "(u + 32768) mod 65536 = (u - 32768) mod 65536"
      by (subst e) (rule mod_add_self2)
    also have "\<dots> = u - 32768" using u False by simp
    finally have "(u + 32768) mod 65536 = u - 32768" .
    then show ?thesis using False by simp
  qed
  finally show ?thesis
    unfolding s16_of_bytes_def u_def Let_def by simp
qed

lemma raw_value_never_error:
  "msensor_raw_s8_value ms index \<noteq> Error e"
  "msensor_raw_s16_value ms index \<noteq> Error e"
  "msensor_raw_s32_value ms index \<noteq> Error e"
  "msensor_raw_float_value w ms index \<noteq> Error e"
  by (simp_all add: msensor_raw_s8_value_def msensor_raw_s16_value_def
      msensor_raw_s32_value_def msensor_raw_float_value_def split: option.splits)

lemma sprintf_value_Error: "sprintf_value r = Error e \<longleftrightarrow> r = Error e"
  by (cases r) (simp_all add: sprintf_value_def)

lemma read_bin_data_past_end:
  "attr_size \<le> off \<Longrightarrow> msensor_read_bin_data ms attr_size buf off count = Ok (0, buf)"
  by (simp add: msensor_read_bin_data_def)

lemmas example_defs =
  example_device_def example_mode_def mode_entry_def num_modes_def current_mode_def

section \<open>Claims about the device functions\<close>

text \<open>
  C1 (the code departs from the claim). The claim says that \<open>read_raw_window\<close> returns
  up to \<open>max_len\<close> bytes of the raw buffer starting at \<open>offset\<close>.
  \<^verbatim>\<open>msensor_read_bin_data\<close> clips the size as the claim says and returns 0 at or past
  the end, but its copy is \<^verbatim>\<open>memcpy(buf + off, raw_data, size)\<close>: it takes the bytes
  from the start of the raw buffer and puts them at \<open>off\<close> in the caller's buffer. With
  the raw bytes \<open>1, \<dots>, 32\<close>, a zeroed page as buffer, \<open>off = 1\<close> and \<open>count = 4\<close> it
  returns 4 and the caller's four bytes are \<open>0, 1, 2, 3\<close>; the window of the claim is
  \<open>2, 3, 4, 5\<close>.
\<close>

theorem read_bin_data_failing_input:
  "msensor_read_bin_data bin_device MSENSOR_RAW_DATA_SIZE (replicate 4096 0) 1 4
     = Ok (4, 0 # [1, 2, 3, 4] @ replicate 4091 0)
   \<and> take 4 (0 # [1, 2, 3, 4] @ replicate 4091 (0 :: 8 word)) = [0, 1, 2, 3]
   \<and> read_raw_window count_bytes MSENSOR_RAW_DATA_SIZE 1 4 = [2, 3, 4, 5]"
  by (simp add: msensor_read_bin_data_def bin_device_def count_bytes_def example_defs
      MSENSOR_RAW_DATA_SIZE_def memcpy_def read_raw_window_def)

text \<open>
  C6 (as stated, refuted). The claim says that for every device a failure of the
  driver's callback leaves the previous mode current. \<^verbatim>\<open>msensor_store_mode\<close> only
  passes the error on, \<^verbatim>\<open>if (err) return err;\<close>, and does not look at the mode. With
  a driver that switches and then reports \<open>-5\<close>, the names A, B, C and mode 1 current,
  writing \<open>C\<close> returns \<open>-5\<close> and the current mode is 2.
\<close>

theorem store_mode_failure_counterexample:
  "current_mode switching_device = 1
   \<and> msensor_store_mode switching_device ''C'' 1
       = (Error (- 5), switching_device\<lparr>drv_context := 2\<rparr>)
   \<and> current_mode (snd (msensor_store_mode switching_device ''C'' 1)) = 2"
  by (simp add: switching_device_def abc_device_def example_defs msensor_store_mode_def
      sysfs_streq_def)

text \<open>
  C6 (amended). For every device, every text written to the mode attribute and every
  count: if no entry of the mode table has that name, \<^verbatim>\<open>msensor_store_mode\<close>
  returns \<^verbatim>\<open>-EINVAL\<close> and the device, hence its current mode, is unchanged. If entry
  \<open>i\<close> has that name (names being unique in the table) and the driver's
  \<^verbatim>\<open>set_mode\<close> called with index \<open>i\<close> returns \<open>err\<close> and leaves the context \<open>c\<close>,
  then \<^verbatim>\<open>msensor_store_mode\<close> returns \<open>err\<close> itself when it is not 0 and the count
  otherwise, and the current mode afterwards is the one the driver reports for \<open>c\<close>:
  the class neither restores nor changes the mode, so the previous mode remains
  current after a failure only when the driver has kept it.
\<close>

theorem store_mode_by_name:
  "((\<forall>m \<in> set (mode_info ms). name m \<noteq> buf) \<longrightarrow>
      msensor_store_mode ms buf count = (Error (- EINVAL), ms)
      \<and> current_mode (snd (msensor_store_mode ms buf count)) = current_mode ms)
   \<and> (i < num_modes ms \<and> name (mode_info ms ! i) = buf \<and> distinct (map name (mode_info ms))
        \<and> set_mode ms (drv_context ms) i = (err, c) \<longrightarrow>
      msensor_store_mode ms buf count =
        (if err \<noteq> 0 then Error err else Ok count, ms\<lparr>drv_context := c\<rparr>)
      \<and> current_mode (snd (msensor_store_mode ms buf count)) = get_mode ms c)"
proof (intro conjI impI)
  assume "\<forall>m \<in> set (mode_info ms). name m \<noteq> buf"
  then show r: "msensor_store_mode ms buf count = (Error (- EINVAL), ms)"
    by (simp add: msensor_store_mode_def store_mode_loop_no_match)
  show "current_mode (snd (msensor_store_mode ms buf count)) = current_mode ms"
    by (simp add: r)
next
  assume a: "i < num_modes ms \<and> name (mode_info ms ! i) = buf
        \<and> distinct (map name (mode_info ms)) \<and> set_mode ms (drv_context ms) i = (err, c)"
  then have first: "\<forall>j < i. name (mode_info ms ! j) \<noteq> buf"
    using distinct_names_first [of "mode_info ms" i buf] by (simp add: num_modes_def)
  show r: "msensor_store_mode ms buf count =
        (if err \<noteq> 0 then Error err else Ok count, ms\<lparr>drv_context := c\<rparr>)"
    unfolding msensor_store_mode_def
    using a first by (intro store_mode_loop_match [of i]) (simp_all add: num_modes_def)
  show "current_mode (snd (msensor_store_mode ms buf count)) = get_mode ms c"
    by (simp add: r current_mode_def)
qed

theorem store_mode_by_name_witness:
  "msensor_store_mode abc_device ''nonexistent'' 11 = (Error (- EINVAL), abc_device)
   \<and> current_mode (snd (msensor_store_mode abc_device ''nonexistent'' 11)) = 1
   \<and> msensor_store_mode abc_device ''C'' 1 = (Error (- 5), abc_device\<lparr>drv_context := 1\<rparr>)
   \<and> current_mode (snd (msensor_store_mode abc_device ''C'' 1)) = 1
   \<and> msensor_store_mode abc_device ''A'' 1 = (Ok 1, abc_device\<lparr>drv_context := 0\<rparr>)
   \<and> current_mode (snd (msensor_store_mode abc_device ''A'' 1)) = 0"
  using store_mode_by_name [of abc_device "''nonexistent''" 11 0 0 0]
    store_mode_by_name [of abc_device "''C''" 1 2 "- 5" 1]
    store_mode_by_name [of abc_device "''A''" 1 0 0 0]
  by (simp add: abc_device_def example_defs)

text \<open>
  C8 (as stated, refuted). The claim says that \<^verbatim>\<open>-ENXIO\<close> is returned exactly when
  the index is negative or at least \<^verbatim>\<open>data_sets\<close>. \<^verbatim>\<open>msensor_show_value\<close> also
  returns \<^verbatim>\<open>-ENXIO\<close> for an index in range when the format of the current mode is
  none of the four cases of its switch: \<^verbatim>\<open>count\<close> keeps its initial value. With
  two data sets and such a format, \<open>value0\<close> gives \<^verbatim>\<open>-ENXIO\<close>.
\<close>

theorem show_value_format_counterexample:
  "mode_entry other_device = Some other_mode
   \<and> data_sets other_mode = 2
   \<and> sscanf_d (drop 5 ''value0'') = Some 0
   \<and> msensor_show_value BITS_PER_LONG other_device ''value0'' = Error (- ENXIO)"
  by (simp add: msensor_show_value_def other_device_def other_mode_def example_defs
      sscanf_d_def is_digit_def digit_value_def)

text \<open>
  C8 (amended). For every device whose current mode is an entry of the table and every
  value attribute whose name carries the index, \<^verbatim>\<open>msensor_show_value\<close> returns
  \<^verbatim>\<open>-ENXIO\<close> exactly when the index is negative, or greater than or equal to the
  current mode's \<^verbatim>\<open>data_sets\<close>, or the format of the current mode is none of the
  four recognised ones (the unsupported format has the same error code); so it does
  for the index equal to \<^verbatim>\<open>data_sets\<close>.
\<close>

theorem show_value_enxio_iff:
  assumes "6 \<le> length attr_name" and "sscanf_d (drop 5 attr_name) = Some index"
    and "mode_entry ms = Some mi"
  shows "msensor_show_value w ms attr_name = Error (- ENXIO)
    \<longleftrightarrow> (index < 0 \<or> int (data_sets mi) \<le> index \<or> format mi = MSENSOR_DATA_OTHER)"
  using assms
  by (cases "format mi")
    (auto simp: msensor_show_value_def sprintf_value_Error raw_value_never_error)

theorem show_value_enxio_iff_witness:
  "6 \<le> length ''value2''
   \<and> sscanf_d (drop 5 ''value2'') = Some 2
   \<and> sscanf_d (drop 5 ''value1'') = Some 1
   \<and> mode_entry s16_device = Some s16_mode
   \<and> int (data_sets s16_mode) = 2
   \<and> format s16_mode = MSENSOR_DATA_16
   \<and> msensor_show_value BITS_PER_LONG s16_device ''value2'' = Error (- ENXIO)
   \<and> msensor_show_value BITS_PER_LONG s16_device ''value1'' \<noteq> Error (- ENXIO)
   \<and> mode_entry other_device = Some other_mode
   \<and> msensor_show_value BITS_PER_LONG other_device ''value1'' = Error (- ENXIO)"
proof -
  have n2: "6 \<le> length ''value2''" and n1: "6 \<le> length ''value1''" by simp_all
  have i2: "sscanf_d (drop 5 ''value2'') = Some 2"
    and i1: "sscanf_d (drop 5 ''value1'') = Some 1"
    by (simp_all add: sscanf_d_def is_digit_def digit_value_def)
  have m: "mode_entry s16_device = Some s16_mode"
    by (simp add: s16_device_def example_defs)
  have d: "int (data_sets s16_mode) = 2" and f: "format s16_mode = MSENSOR_DATA_16"
    by (simp_all add: s16_mode_def example_defs)
  have mo: "mode_entry other_device = Some other_mode"
    by (simp add: other_device_def example_defs)
  have fo: "format other_mode = MSENSOR_DATA_OTHER"
    by (simp add: other_mode_def example_defs)
  from show_value_enxio_iff [OF n2 i2 m, of BITS_PER_LONG] d
  have r2: "msensor_show_value BITS_PER_LONG s16_device ''value2'' = Error (- ENXIO)"
    by simp
  from show_value_enxio_iff [OF n1 i1 m, of BITS_PER_LONG] d f
  have r1: "msensor_show_value BITS_PER_LONG s16_device ''value1'' \<noteq> Error (- ENXIO)"
    by simp
  from show_value_enxio_iff [OF n1 i1 mo, of BITS_PER_LONG] fo
  have ro: "msensor_show_value BITS_PER_LONG other_device ''value1'' = Error (- ENXIO)"
    by simp
  from n2 i2 i1 m d f r2 r1 mo ro show ?thesis by blast
qed

text \<open>
  C9. For every device whose current mode has the 16-bit signed format and every index
  below its \<^verbatim>\<open>data_sets\<close> with the two bytes inside the raw buffer,
  \<^verbatim>\<open>msensor_raw_s16_value\<close> is the signed 16-bit value of the two bytes at offset
  \<open>2 * index\<close>, low byte first, and \<^verbatim>\<open>msensor_show_value\<close> prints that value in
  decimal, followed by a newline. With two data sets and the bytes
  \<open>0x01, 0x00, 0xFF, 0xFF\<close>, index 0 gives 1 and index 1 gives \<open>-1\<close>.
\<close>

theorem raw_s16_value_decodes:
  assumes "mode_entry ms = Some mi" and "format mi = MSENSOR_DATA_16"
    and "0 \<le> index" and "index < int (data_sets mi)"
    and "2 * nat index + 2 \<le> length (raw_data mi)"
    and "6 \<le> length attr_name" and "sscanf_d (drop 5 attr_name) = Some index"
  shows "msensor_raw_s16_value ms index =
      Ok (s16_of_bytes (raw_data mi ! (2 * nat index)) (raw_data mi ! (2 * nat index + 1)))
    \<and> msensor_show_value w ms attr_name =
      Ok (sprintf_d (s16_of_bytes (raw_data mi ! (2 * nat index))
                                   (raw_data mi ! (2 * nat index + 1)))
          @ [CHR 0x0A])"
proof -
  have "msensor_raw_s16_value ms index =
      Ok (sint (word_of_nat (unat (raw_data mi ! (2 * nat index))
            + 256 * unat (raw_data mi ! (2 * nat index + 1))) :: 16 word))"
    by (simp only: msensor_raw_s16_value_def assms(1) load_le_2 [OF assms(3,5)] option.case)
  then have v: "msensor_raw_s16_value ms index =
      Ok (s16_of_bytes (raw_data mi ! (2 * nat index)) (raw_data mi ! (2 * nat index + 1)))"
    by (simp only: sint16_of_bytes)
  moreover
  have "msensor_show_value w ms attr_name = sprintf_value (msensor_raw_s16_value ms index)"
    using assms by (simp add: msensor_show_value_def)
  ultimately show ?thesis by (simp add: sprintf_value_def)
qed

theorem raw_s16_value_decodes_witness:
  "mode_entry s16_device = Some s16_mode
   \<and> format s16_mode = MSENSOR_DATA_16
   \<and> data_sets s16_mode = 2
   \<and> raw_data s16_mode = [0x01, 0x00, 0xFF, 0xFF]
   \<and> sscanf_d (drop 5 ''value0'') = Some 0
   \<and> sscanf_d (drop 5 ''value1'') = Some 1
   \<and> msensor_raw_s16_value s16_device 0 = Ok 1
   \<and> msensor_raw_s16_value s16_device 1 = Ok (- 1)
   \<and> msensor_show_value BITS_PER_LONG s16_device ''value0'' = Ok (''1'' @ [CHR 0x0A])
   \<and> msensor_show_value BITS_PER_LONG s16_device ''value1'' = Ok (''-1'' @ [CHR 0x0A])"
proof -
  have m: "mode_entry s16_device = Some s16_mode"
    by (simp add: s16_device_def example_defs)
  have f: "format s16_mode = MSENSOR_DATA_16" and d: "data_sets s16_mode = 2"
    and r: "raw_data s16_mode = [0x01, 0x00, 0xFF, 0xFF]"
    by (simp_all add: s16_mode_def example_defs)
  have i0: "sscanf_d (drop 5 ''value0'') = Some 0"
    and i1: "sscanf_d (drop 5 ''value1'') = Some 1"
    by (simp_all add: sscanf_d_def is_digit_def digit_value_def)
  have v0: "msensor_raw_s16_value s16_device 0 = Ok 1
      \<and> msensor_show_value BITS_PER_LONG s16_device ''value0'' = Ok (''1'' @ [CHR 0x0A])"
    using raw_s16_value_decodes [OF m f, of 0 "''value0''" BITS_PER_LONG] i0
    by (simp add: d r s16_of_bytes_def sprintf_d_def)
  have v1: "msensor_raw_s16_value s16_device 1 = Ok (- 1)
      \<and> msensor_show_value BITS_PER_LONG s16_device ''value1'' = Ok (''-1'' @ [CHR 0x0A])"
    using raw_s16_value_decodes [OF m f, of 1 "''value1''" BITS_PER_LONG] i1
    by (simp add: d r s16_of_bytes_def sprintf_d_def)
  from m f d r i0 i1 v0 v1 show ?thesis by blast
qed

text \<open>
  C10 (as stated, refuted). The claim says that a table with the names A, B, C and
  current index 1 yields the text \<open>A [B] C\<close>. \<^verbatim>\<open>msensor_show_mode\<close> overwrites the
  last space with a newline, \<^verbatim>\<open>buf[count - 1] = '\n'\<close>, and returns the count with
  it: the text is \<open>A [B] C\<close> followed by a newline, eight characters.
\<close>

theorem show_mode_newline_counterexample:
  "msensor_show_mode abc_device = Ok (''A [B] C'' @ [CHR 0x0A])
   \<and> msensor_show_mode abc_device \<noteq> Ok ''A [B] C''"
  by (simp add: msensor_show_mode_def abc_device_def example_defs)

text \<open>
  C10 (amended). For every device with a non-empty mode table,
  \<^verbatim>\<open>msensor_show_mode\<close> returns the names of all modes in table order, separated by
  single spaces, the name at the current index in square brackets, followed by one
  newline (names A, B, C and current index 1 give \<open>A [B] C\<close> and a newline); on an
  empty table it returns \<^verbatim>\<open>-ENXIO\<close>.
\<close>

theorem show_mode_display:
  "msensor_show_mode ms =
    (if mode_info ms = [] then Error (- ENXIO)
     else Ok (mode_list_display (current_mode ms) (map name (mode_info ms)) @ [CHR 0x0A]))"
proof (cases "mode_info ms = []")
  case True
  then show ?thesis by (simp add: msensor_show_mode_def)
next
  case False
  define ys where "ys = map (bracket (current_mode ms)) (enumerate 0 (map name (mode_info ms)))"
  have "length ys = length (mode_info ms)" by (simp add: ys_def)
  with False have ne: "ys \<noteq> []" by auto
  have "show_mode_loop (current_mode ms) 0 (mode_info ms) [] =
      [] @ concat (map (\<lambda>s. s @ '' '') ys)"
    unfolding ys_def by (rule show_mode_loop_eq)
  also have "\<dots> = join_space ys @ '' ''"
    using concat_join_space [OF ne] by simp
  finally have "show_mode_loop (current_mode ms) 0 (mode_info ms) [] = join_space ys @ '' ''" .
  then show ?thesis
    using False
    by (simp add: msensor_show_mode_def current_mode_def Let_def mode_list_display_def ys_def)
qed

theorem show_mode_display_witness:
  "msensor_show_mode
     (example_device
        [example_mode ''US-DIST-CM'' MSENSOR_DATA_16 1 [],
         example_mode ''US-DIST-IN'' MSENSOR_DATA_16 1 [],
         example_mode ''US-LISTEN'' MSENSOR_DATA_8 1 []] 1)
     = Ok (''US-DIST-CM [US-DIST-IN] US-LISTEN'' @ [CHR 0x0A])
   \<and> msensor_show_mode (example_device [] 0) = Error (- ENXIO)"
  using show_mode_display [of "example_device
        [example_mode ''US-DIST-CM'' MSENSOR_DATA_16 1 [],
         example_mode ''US-DIST-IN'' MSENSOR_DATA_16 1 [],
         example_mode ''US-LISTEN'' MSENSOR_DATA_8 1 []] 1"]
    show_mode_display [of "example_device [] 0"]
  by (simp add: example_defs mode_list_display_def)

end
